theory Spec2Isabelle
  imports Main "HOL-Library.Word"
begin

section \<open>Strings and JSON values\<close>

text \<open>
  A JavaScript string is a sequence of 16-bit code units. String literals of the
  source are written with \<open>str\<close>, which maps each ASCII character to its code unit.
\<close>

type_synonym jschar = "16 word"
type_synonym jsstring = "jschar list"

definition str :: "string \<Rightarrow> jsstring" where
  "str s = map of_char s"

text \<open>
  The values \<open>JSON.parse\<close> can return. A number keeps its lexeme: nothing in the
  monitor computes with a parsed number. An object is the list of its own properties.
\<close>

datatype json =
    JNull
  | JBool bool
  | JNum jsstring
  | JStr jsstring
  | JArr "json list"
  | JObj "(jsstring \<times> json) list"

text \<open>
  What a property read \<open>o[k]\<close> evaluates to: \<open>undefined\<close>, a JSON value, or a value
  that is no JSON value (a function or object found on the prototype chain).
\<close>

datatype jsval = Undefined | Val json | Builtin

text \<open>
  A thrown error object: its \<open>name\<close> and its \<open>message\<close>. \<open>String(err)\<close> is the
  name, the message, or both separated by a colon.
\<close>

datatype exn = Exn (exn_name: jsstring) (exn_message: jsstring)

definition String :: "exn \<Rightarrow> jsstring" where
  "String e =
     (if exn_name e = [] then exn_message e
      else if exn_message e = [] then exn_name e
      else exn_name e @ str '': '' @ exn_message e)"

text \<open>\<open>err.message || String(err)\<close>: the message unless it is the empty string.\<close>

definition message_or_string :: "exn \<Rightarrow> jsstring" where
  "message_or_string e = (if exn_message e \<noteq> [] then exn_message e else String e)"

subsection \<open>Decimal numerals and array indices\<close>

definition digit :: "nat \<Rightarrow> jschar" where
  "digit d = of_nat (48 + d)"

function dec :: "nat \<Rightarrow> jsstring" where
  "dec n = (if n < 10 then [digit n] else dec (n div 10) @ [digit (n mod 10)])"
  by pat_completeness auto
termination
  by (relation "measure id") auto

definition is_digit :: "jschar \<Rightarrow> bool" where
  "is_digit c = (48 \<le> c \<and> c \<le> 57)"

definition digits_value :: "jsstring \<Rightarrow> nat" where
  "digits_value s = foldl (\<lambda>a c. 10 * a + (unat c - 48)) 0 s"

text \<open>
  An array index is the canonical decimal numeral of an integer below \<open>2^32 - 1\<close>.
\<close>

definition index_of :: "jsstring \<Rightarrow> nat option" where
  "index_of k =
     (if k \<noteq> [] \<and> list_all is_digit k \<and> (k = [48] \<or> hd k \<noteq> 48)
         \<and> length k \<le> 10 \<and> digits_value k < 4294967295
      then Some (digits_value k) else None)"

subsection \<open>JSON.stringify\<close>

definition hexdigit :: "nat \<Rightarrow> jschar" where
  "hexdigit d = (if d < 10 then of_nat (48 + d) else of_nat (87 + d))"

definition hex4 :: "jschar \<Rightarrow> jsstring" where
  "hex4 c = [hexdigit (unat c div 4096), hexdigit (unat c div 256 mod 16),
             hexdigit (unat c div 16 mod 16), hexdigit (unat c mod 16)]"

definition unicode_escape :: "jschar \<Rightarrow> jsstring" where
  "unicode_escape c = [0x5C, 0x75] @ hex4 c"

definition is_high_surrogate :: "jschar \<Rightarrow> bool" where
  "is_high_surrogate c = (0xD800 \<le> c \<and> c \<le> 0xDBFF)"

definition is_low_surrogate :: "jschar \<Rightarrow> bool" where
  "is_low_surrogate c = (0xDC00 \<le> c \<and> c \<le> 0xDFFF)"

text \<open>
  The escape of one code unit that is not a surrogate: the two-character escapes of
  the table, a \<open>\u\<close> escape for the other control characters, the unit itself
  otherwise.
\<close>

definition quote_unit :: "jschar \<Rightarrow> jsstring" where
  "quote_unit c =
     (if c = 0x08 then [0x5C, 0x62]
      else if c = 0x09 then [0x5C, 0x74]
      else if c = 0x0A then [0x5C, 0x6E]
      else if c = 0x0C then [0x5C, 0x66]
      else if c = 0x0D then [0x5C, 0x72]
      else if c = 0x22 then [0x5C, 0x22]
      else if c = 0x5C then [0x5C, 0x5C]
      else if c < 0x20 then unicode_escape c
      else [c])"

text \<open>
  The characters between the quotes: the string is read by code points, so a high
  surrogate followed by a low one is one code point and is copied; a surrogate on its
  own is escaped.
\<close>

fun quote_body :: "jsstring \<Rightarrow> jsstring" where
  "quote_body [] = []"
| "quote_body [c] =
     (if is_high_surrogate c \<or> is_low_surrogate c then unicode_escape c
      else quote_unit c)"
| "quote_body (c # d # cs) =
     (if is_high_surrogate c then
        (if is_low_surrogate d then c # d # quote_body cs
         else unicode_escape c @ quote_body (d # cs))
      else if is_low_surrogate c then unicode_escape c @ quote_body (d # cs)
      else quote_unit c @ quote_body (d # cs))"

definition quote :: "jsstring \<Rightarrow> jsstring" where
  "quote s = [0x22] @ quote_body s @ [0x22]"

text \<open>
  \<open>JSON.stringify(state, null, 2)\<close> for the state object, whose values are booleans:
  one property per line, indented by two spaces; an object without properties is
  \<open>{}\<close>.
\<close>

definition stringify_bool :: "bool \<Rightarrow> jsstring" where
  "stringify_bool b = (if b then str ''true'' else str ''false'')"

definition stringify_member :: "jsstring \<times> bool \<Rightarrow> jsstring" where
  "stringify_member kv = str ''  '' @ quote (fst kv) @ str '': '' @ stringify_bool (snd kv)"

fun join :: "jsstring \<Rightarrow> jsstring list \<Rightarrow> jsstring" where
  "join sep [] = []"
| "join sep [x] = x"
| "join sep (x # y # ys) = x @ sep @ join sep (y # ys)"

definition stringify_state :: "(jsstring \<times> bool) list \<Rightarrow> jsstring" where
  "stringify_state st =
     (if st = [] then str ''{}''
      else [0x7B, 0x0A] @ join [0x2C, 0x0A] (map stringify_member st) @ [0x0A, 0x7D])"

text \<open>\<open>JSON.stringify({ content: message })\<close>.\<close>

definition stringify_content :: "jsstring \<Rightarrow> jsstring" where
  "stringify_content message = str ''{\"content\":'' @ quote message @ str ''}''"

subsection \<open>Own properties\<close>

text \<open>
  Creating or overwriting an own property. An object lists its properties with the
  array indices first, in ascending order, then the other names in the order of their
  creation. Overwriting keeps the position.
\<close>

fun insert_index :: "nat \<Rightarrow> jsstring \<Rightarrow> 'v \<Rightarrow> (jsstring \<times> 'v) list \<Rightarrow> (jsstring \<times> 'v) list" where
  "insert_index i k v [] = [(k, v)]"
| "insert_index i k v ((k', v') # kvs) =
     (case index_of k' of
        None \<Rightarrow> (k, v) # (k', v') # kvs
      | Some j \<Rightarrow> if i < j then (k, v) # (k', v') # kvs
                  else (k', v') # insert_index i k v kvs)"

fun overwrite :: "jsstring \<Rightarrow> 'v \<Rightarrow> (jsstring \<times> 'v) list \<Rightarrow> (jsstring \<times> 'v) list" where
  "overwrite k v [] = []"
| "overwrite k v ((k', v') # kvs) =
     (if k' = k then (k, v) # kvs else (k', v') # overwrite k v kvs)"

definition define_own :: "(jsstring \<times> 'v) list \<Rightarrow> jsstring \<Rightarrow> 'v \<Rightarrow> (jsstring \<times> 'v) list" where
  "define_own kvs k v =
     (if k \<in> fst ` set kvs then overwrite k v kvs
      else (case index_of k of
              Some i \<Rightarrow> insert_index i k v kvs
            | None \<Rightarrow> kvs @ [(k, v)]))"

text \<open>
  The assignment \<open>obj[k] = v\<close> on an object created by \<open>{}\<close>, for a boolean \<open>v\<close>:
  the name \<open>__proto__\<close> reaches the setter inherited from \<open>Object.prototype\<close>, which
  ignores a value that is neither an object nor \<open>null\<close>; every other name becomes an
  own property.
\<close>

definition obj_set :: "(jsstring \<times> bool) list \<Rightarrow> jsstring \<Rightarrow> bool \<Rightarrow> (jsstring \<times> bool) list" where
  "obj_set kvs k v = (if k = str ''__proto__'' then kvs else define_own kvs k v)"

subsection \<open>JSON.parse\<close>

definition is_ws :: "jschar \<Rightarrow> bool" where
  "is_ws c = (c = 0x20 \<or> c = 0x09 \<or> c = 0x0A \<or> c = 0x0D)"

definition skip_ws :: "jsstring \<Rightarrow> jsstring" where
  "skip_ws t = dropWhile is_ws t"

definition hexval :: "jschar \<Rightarrow> nat option" where
  "hexval c =
     (if 0x30 \<le> c \<and> c \<le> 0x39 then Some (unat c - 48)
      else if 0x61 \<le> c \<and> c \<le> 0x66 then Some (unat c - 87)
      else if 0x41 \<le> c \<and> c \<le> 0x46 then Some (unat c - 55)
      else None)"

definition parse_hex4 :: "jschar \<Rightarrow> jschar \<Rightarrow> jschar \<Rightarrow> jschar \<Rightarrow> jschar option" where
  "parse_hex4 a b c d =
     (case (hexval a, hexval b, hexval c, hexval d) of
        (Some x, Some y, Some z, Some w) \<Rightarrow> Some (of_nat (4096 * x + 256 * y + 16 * z + w))
      | _ \<Rightarrow> None)"

definition simple_escape :: "jschar \<Rightarrow> jschar option" where
  "simple_escape e =
     (if e = 0x22 then Some 0x22
      else if e = 0x5C then Some 0x5C
      else if e = 0x2F then Some 0x2F
      else if e = 0x62 then Some 0x08
      else if e = 0x66 then Some 0x0C
      else if e = 0x6E then Some 0x0A
      else if e = 0x72 then Some 0x0D
      else if e = 0x74 then Some 0x09
      else None)"

text \<open>
  The characters of a string after its opening quote, up to and including the closing
  quote: the result is the string denoted and the text that follows.
\<close>

fun parse_chars :: "jsstring \<Rightarrow> (jsstring \<times> jsstring) option" where
  "parse_chars [] = None"
| "parse_chars (c # cs) =
     (if c = 0x22 then Some ([], cs)
      else if c = 0x5C then
        (case cs of
           [] \<Rightarrow> None
         | e # es \<Rightarrow>
             if e = 0x75 then
               (case es of
                  h1 # h2 # h3 # h4 # rest \<Rightarrow>
                    (case parse_hex4 h1 h2 h3 h4 of
                       None \<Rightarrow> None
                     | Some u \<Rightarrow> map_option (apfst ((#) u)) (parse_chars rest))
                | _ \<Rightarrow> None)
             else
               (case simple_escape e of
                  None \<Rightarrow> None
                | Some u \<Rightarrow> map_option (apfst ((#) u)) (parse_chars es)))
      else if c < 0x20 then None
      else map_option (apfst ((#) c)) (parse_chars cs))"

text \<open>
  A number: an optional minus sign, an integer part without a leading zero, an
  optional fraction, an optional exponent.
\<close>

definition parse_digits :: "jsstring \<Rightarrow> (jsstring \<times> jsstring) option" where
  "parse_digits t =
     (if takeWhile is_digit t = [] then None
      else Some (takeWhile is_digit t, dropWhile is_digit t))"

definition parse_int_part :: "jsstring \<Rightarrow> (jsstring \<times> jsstring) option" where
  "parse_int_part t =
     (case t of
        [] \<Rightarrow> None
      | c # cs \<Rightarrow> if c = 0x30 then Some ([c], cs) else parse_digits t)"

definition parse_fraction :: "jsstring \<Rightarrow> (jsstring \<times> jsstring) option" where
  "parse_fraction t =
     (case t of
        [] \<Rightarrow> Some ([], t)
      | c # cs \<Rightarrow>
          if c = 0x2E then map_option (apfst ((#) c)) (parse_digits cs)
          else Some ([], t))"

definition parse_exponent :: "jsstring \<Rightarrow> (jsstring \<times> jsstring) option" where
  "parse_exponent t =
     (case t of
        [] \<Rightarrow> Some ([], t)
      | c # cs \<Rightarrow>
          if c = 0x65 \<or> c = 0x45 then
            (case cs of
               [] \<Rightarrow> None
             | s # ds \<Rightarrow>
                 if s = 0x2B \<or> s = 0x2D
                 then map_option (apfst (\<lambda>x. c # s # x)) (parse_digits ds)
                 else map_option (apfst ((#) c)) (parse_digits cs))
          else Some ([], t))"

definition parse_number :: "jsstring \<Rightarrow> (jsstring \<times> jsstring) option" where
  "parse_number t =
     (let (sign, t1) = (case t of [] \<Rightarrow> ([], t)
                        | c # cs \<Rightarrow> if c = 0x2D then ([c], cs) else ([], t))
      in case parse_int_part t1 of
           None \<Rightarrow> None
         | Some (ip, t2) \<Rightarrow>
             (case parse_fraction t2 of
                None \<Rightarrow> None
              | Some (fp, t3) \<Rightarrow>
                  (case parse_exponent t3 of
                     None \<Rightarrow> None
                   | Some (ep, t4) \<Rightarrow> Some (sign @ ip @ fp @ ep, t4))))"

definition parse_literal :: "jsstring \<Rightarrow> (json \<times> jsstring) option" where
  "parse_literal t =
     (if take 4 t = str ''true'' then Some (JBool True, drop 4 t)
      else if take 5 t = str ''false'' then Some (JBool False, drop 5 t)
      else if take 4 t = str ''null'' then Some (JNull, drop 4 t)
      else None)"

text \<open>
  Values, array elements and object members. The first argument bounds the depth of
  the calls; \<open>json_parse\<close> starts with twice the length of the text and two more,
  a bound that is never reached (\<open>json_parse_depth\<close> below: a greater bound gives the
  same result). A value starts at the first character of the text given; the callers
  skip white space.
\<close>

fun parse_value :: "nat \<Rightarrow> jsstring \<Rightarrow> (json \<times> jsstring) option"
  and parse_elements :: "nat \<Rightarrow> json list \<Rightarrow> jsstring \<Rightarrow> (json \<times> jsstring) option"
  and parse_members :: "nat \<Rightarrow> (jsstring \<times> json) list \<Rightarrow> jsstring \<Rightarrow> (json \<times> jsstring) option"
  where
  "parse_value 0 t = None"
| "parse_value (Suc n) t =
     (case t of
        [] \<Rightarrow> None
      | c # cs \<Rightarrow>
          if c = 0x7B then
            (case skip_ws cs of
               [] \<Rightarrow> None
             | d # ds \<Rightarrow> if d = 0x7D then Some (JObj [], ds)
                         else parse_members n [] (d # ds))
          else if c = 0x5B then
            (case skip_ws cs of
               [] \<Rightarrow> None
             | d # ds \<Rightarrow> if d = 0x5D then Some (JArr [], ds)
                         else parse_elements n [] (d # ds))
          else if c = 0x22 then map_option (apfst JStr) (parse_chars cs)
          else if c = 0x2D \<or> is_digit c then map_option (apfst JNum) (parse_number t)
          else parse_literal t)"
| "parse_elements 0 acc t = None"
| "parse_elements (Suc n) acc t =
     (case parse_value n t of
        None \<Rightarrow> None
      | Some (v, rest) \<Rightarrow>
          (case skip_ws rest of
             [] \<Rightarrow> None
           | c # cs \<Rightarrow>
               if c = 0x2C then parse_elements n (acc @ [v]) (skip_ws cs)
               else if c = 0x5D then Some (JArr (acc @ [v]), cs)
               else None))"
| "parse_members 0 acc t = None"
| "parse_members (Suc n) acc t =
     (case t of
        [] \<Rightarrow> None
      | q # cs \<Rightarrow>
          if q \<noteq> 0x22 then None
          else
            (case parse_chars cs of
               None \<Rightarrow> None
             | Some (k, rest) \<Rightarrow>
                 (case skip_ws rest of
                    [] \<Rightarrow> None
                  | c # cs' \<Rightarrow>
                      if c \<noteq> 0x3A then None
                      else
                        (case parse_value n (skip_ws cs') of
                           None \<Rightarrow> None
                         | Some (v, rest') \<Rightarrow>
                             (case skip_ws rest' of
                                [] \<Rightarrow> None
                              | d # ds \<Rightarrow>
                                  if d = 0x2C
                                  then parse_members n (define_own acc k v) (skip_ws ds)
                                  else if d = 0x7D
                                  then Some (JObj (define_own acc k v), ds)
                                  else None)))))"

text \<open>\<open>JSON.parse\<close>; \<open>None\<close> stands for the SyntaxError it throws.\<close>

definition json_parse :: "jsstring \<Rightarrow> json option" where
  "json_parse t =
     (case parse_value (2 * length t + 2) (skip_ws t) of
        None \<Rightarrow> None
      | Some (v, rest) \<Rightarrow> if skip_ws rest = [] then Some v else None)"

section \<open>The state store\<close>

text \<open>
  The file system as far as the state file is concerned: the text of the file
  (\<open>None\<close> when there is no file), whether the directory of the file exists, and
  what the operating system does when the program reads the file, creates the
  directory or writes the file. The text is the one \<open>readFileSync(STATE_FILE, "utf8")\<close>
  returns.

  \<open>writeFileSync\<close> opens the file with the flag \<open>w\<close>, which empties it, and then writes.
  So a write can fail in two ways: at the open, and the file is as it was; or after
  the open, and the file holds what was written of the new text until then (nothing,
  or a part of it) and no longer what it held before. In both cases the error carries
  the message of the operating system.
\<close>

datatype write_fault =
    OpenFails jsstring
  | WriteFails jsstring jsstring

record fs =
  content :: "jsstring option"
  read_error :: "jsstring option"
  parent_exists :: bool
  mkdir_error :: "jsstring option"
  write_fault :: "write_fault option"

text \<open>\<open>STATE_FILE\<close> of \<open>monitor.mjs\<close>, and of the version that reads it from the
  environment: \<open>process.env.STATE_FILE_PATH || "/tmp/monitor-state.json"\<close>.\<close>

definition STATE_FILE :: jsstring where
  "STATE_FILE = str ''/tmp/monitor-state.json''"

definition STATE_FILE_configured :: "jsstring option \<Rightarrow> jsstring" where
  "STATE_FILE_configured v =
     (case v of None \<Rightarrow> STATE_FILE | Some s \<Rightarrow> if s = [] then STATE_FILE else s)"

text \<open>The error of an \<open>open\<close> when the file or its directory does not exist.\<close>

definition enoent :: "jsstring \<Rightarrow> exn" where
  "enoent path =
     Exn (str ''Error'')
         (str ''ENOENT: no such file or directory, open '' @ [0x27] @ path @ [0x27])"

definition readFileSync :: "fs \<Rightarrow> jsstring \<Rightarrow> exn + jsstring" where
  "readFileSync d path =
     (case content d of
        None \<Rightarrow> Inl (enoent path)
      | Some t \<Rightarrow>
          (case read_error d of
             Some m \<Rightarrow> Inl (Exn (str ''Error'') m)
           | None \<Rightarrow> Inr t))"

text \<open>
  \<open>writeFileSync\<close> returns the error it throws, if any, and the file system it leaves.
\<close>

definition writeFileSync :: "fs \<Rightarrow> jsstring \<Rightarrow> jsstring \<Rightarrow> exn option \<times> fs" where
  "writeFileSync d path t =
     (if \<not> parent_exists d then (Some (enoent path), d)
      else (case write_fault d of
              None \<Rightarrow> (None, d\<lparr>content := Some t\<rparr>)
            | Some (OpenFails m) \<Rightarrow> (Some (Exn (str ''Error'') m), d)
            | Some (WriteFails m written) \<Rightarrow>
                (Some (Exn (str ''Error'') m), d\<lparr>content := Some written\<rparr>)))"

text \<open>\<open>mkdirSync(dirname(STATE_FILE), { recursive: true })\<close>.\<close>

definition mkdirSync :: "fs \<Rightarrow> exn + fs" where
  "mkdirSync d =
     (if parent_exists d then Inr d
      else (case mkdir_error d of
              Some m \<Rightarrow> Inl (Exn (str ''Error'') m)
            | None \<Rightarrow> Inr (d\<lparr>parent_exists := True\<rparr>)))"

definition loadPreviousState :: "fs \<Rightarrow> json" where
  "loadPreviousState d =
     (case readFileSync d STATE_FILE of
        Inl e \<Rightarrow> JObj []
      | Inr t \<Rightarrow>
          (case json_parse t of
             None \<Rightarrow> JObj []
           | Some v \<Rightarrow> v))"

text \<open>
  \<open>savePreviousState\<close> returns the file system after the call and the lines it wrote
  with \<open>console.warn\<close>. The first version writes at once; the second one (the file
  whose state file path can be configured, the path being the first argument here)
  creates the directory first and ignores a failure to do so.
\<close>

definition save_warning :: "exn \<Rightarrow> jsstring" where
  "save_warning e = str ''Could not save state: '' @ exn_message e"

definition savePreviousState :: "fs \<Rightarrow> (jsstring \<times> bool) list \<Rightarrow> fs \<times> jsstring list" where
  "savePreviousState d state =
     (case writeFileSync d STATE_FILE (stringify_state state) of
        (None, d') \<Rightarrow> (d', [])
      | (Some e, d') \<Rightarrow> (d', [save_warning e]))"

definition savePreviousState_mkdir ::
  "jsstring \<Rightarrow> fs \<Rightarrow> (jsstring \<times> bool) list \<Rightarrow> fs \<times> jsstring list" where
  "savePreviousState_mkdir state_file d state =
     (let d1 = (case mkdirSync d of Inr d' \<Rightarrow> d' | Inl e \<Rightarrow> d)
      in case writeFileSync d1 state_file (stringify_state state) of
           (None, d') \<Rightarrow> (d', [])
         | (Some e, d') \<Rightarrow> (d', [save_warning e]))"

section \<open>Property reads\<close>

text \<open>
  \<open>previousState[result.url]\<close>, where \<open>previousState\<close> is whatever \<open>JSON.parse\<close>
  returned. Reading a property of \<open>null\<close> throws a TypeError. An object answers with
  its own property when it has one. An array or a string answers an index below its
  length and \<open>length\<close>. Every other name is looked up on the prototype chain: the
  parameter \<open>inherited\<close> says which names the runtime finds there for that value;
  what it finds is never a JSON value.
\<close>

type_synonym runtime = "json \<Rightarrow> jsstring \<Rightarrow> bool"

definition proto_lookup :: "runtime \<Rightarrow> json \<Rightarrow> jsstring \<Rightarrow> jsval" where
  "proto_lookup inherited v k = (if inherited v k then Builtin else Undefined)"

definition null_read_error :: "jsstring \<Rightarrow> exn" where
  "null_read_error k =
     Exn (str ''TypeError'')
         (str ''Cannot read properties of null (reading '' @ [0x27] @ k @ [0x27] @ str '')'')"

fun get_prop :: "runtime \<Rightarrow> json \<Rightarrow> jsstring \<Rightarrow> exn + jsval" where
  "get_prop inherited JNull k = Inl (null_read_error k)"
| "get_prop inherited (JObj kvs) k =
     (case map_of kvs k of
        Some v \<Rightarrow> Inr (Val v)
      | None \<Rightarrow> Inr (proto_lookup inherited (JObj kvs) k))"
| "get_prop inherited (JArr xs) k =
     (case index_of k of
        Some i \<Rightarrow> if i < length xs then Inr (Val (xs ! i))
                  else Inr (proto_lookup inherited (JArr xs) k)
      | None \<Rightarrow> if k = str ''length'' then Inr (Val (JNum (dec (length xs))))
                else Inr (proto_lookup inherited (JArr xs) k))"
| "get_prop inherited (JStr s) k =
     (case index_of k of
        Some i \<Rightarrow> if i < length s then Inr (Val (JStr [s ! i]))
                  else Inr (proto_lookup inherited (JStr s) k)
      | None \<Rightarrow> if k = str ''length'' then Inr (Val (JNum (dec (length s))))
                else Inr (proto_lookup inherited (JStr s) k))"
| "get_prop inherited v k = Inr (proto_lookup inherited v k)"

text \<open>
  The names the standard library has on the prototypes: those of ECMAScript 2024 with
  its Annex B, which is what Node has from version 20 on. An object made by
  \<open>JSON.parse\<close> inherits from \<open>Object.prototype\<close>; an array, a string, a number and a
  boolean inherit from the prototype of their kind and, through it, from
  \<open>Object.prototype\<close>. (\<open>length\<close> and the indices of arrays and strings are answered
  by \<open>get_prop\<close> itself.)
\<close>

definition object_prototype_keys :: "jsstring list" where
  "object_prototype_keys = map str
     [''constructor'', ''__defineGetter__'', ''__defineSetter__'', ''hasOwnProperty'',
      ''__lookupGetter__'', ''__lookupSetter__'', ''isPrototypeOf'',
      ''propertyIsEnumerable'', ''toString'', ''valueOf'', ''__proto__'',
      ''toLocaleString'']"

definition array_prototype_keys :: "jsstring list" where
  "array_prototype_keys = map str
     [''length'', ''constructor'', ''at'', ''concat'', ''copyWithin'', ''entries'', ''every'',
      ''fill'', ''filter'', ''find'', ''findIndex'', ''findLast'', ''findLastIndex'',
      ''flat'', ''flatMap'', ''forEach'', ''includes'', ''indexOf'', ''join'', ''keys'',
      ''lastIndexOf'', ''map'', ''pop'', ''push'', ''reduce'', ''reduceRight'', ''reverse'',
      ''shift'', ''slice'', ''some'', ''sort'', ''splice'', ''toLocaleString'',
      ''toReversed'', ''toSorted'', ''toSpliced'', ''toString'', ''unshift'', ''values'',
      ''with'']"

definition string_prototype_keys :: "jsstring list" where
  "string_prototype_keys = map str
     [''length'', ''constructor'', ''at'', ''charAt'', ''charCodeAt'', ''codePointAt'',
      ''concat'', ''endsWith'', ''includes'', ''indexOf'', ''isWellFormed'',
      ''lastIndexOf'', ''localeCompare'', ''match'', ''matchAll'', ''normalize'',
      ''padEnd'', ''padStart'', ''repeat'', ''replace'', ''replaceAll'', ''search'',
      ''slice'', ''split'', ''startsWith'', ''substring'', ''toLocaleLowerCase'',
      ''toLocaleUpperCase'', ''toLowerCase'', ''toString'', ''toUpperCase'',
      ''toWellFormed'', ''trim'', ''trimEnd'', ''trimStart'', ''valueOf'', ''substr'',
      ''anchor'', ''big'', ''blink'', ''bold'', ''fixed'', ''fontcolor'', ''fontsize'',
      ''italics'', ''link'', ''small'', ''strike'', ''sub'', ''sup'', ''trimLeft'',
      ''trimRight'']"

definition number_prototype_keys :: "jsstring list" where
  "number_prototype_keys = map str
     [''constructor'', ''toExponential'', ''toFixed'', ''toLocaleString'', ''toPrecision'',
      ''toString'', ''valueOf'']"

definition boolean_prototype_keys :: "jsstring list" where
  "boolean_prototype_keys = map str [''constructor'', ''toString'', ''valueOf'']"

definition node_prototypes :: runtime where
  "node_prototypes v k =
     (case v of
        JNull \<Rightarrow> False
      | JObj kvs \<Rightarrow> k \<in> set object_prototype_keys
      | JArr xs \<Rightarrow> k \<in> set array_prototype_keys \<or> k \<in> set object_prototype_keys
      | JStr s \<Rightarrow> k \<in> set string_prototype_keys \<or> k \<in> set object_prototype_keys
      | JNum n \<Rightarrow> k \<in> set number_prototype_keys \<or> k \<in> set object_prototype_keys
      | JBool b \<Rightarrow> k \<in> set boolean_prototype_keys \<or> k \<in> set object_prototype_keys)"

section \<open>Targets\<close>

text \<open>An entry of \<open>TARGETS\<close>; \<open>expectStatus\<close> and \<open>expectText\<close> may be \<open>null\<close>.\<close>

record target =
  name :: jsstring
  url :: jsstring
  expectStatus :: "nat option"
  expectText :: "jsstring option"
  timeoutMs :: nat

text \<open>
  The environment variables the monitor reads; \<open>None\<close> is a variable that is not
  set.
\<close>

record environment =
  PROD_MONITOR_URL :: "jsstring option"
  STAGING_MONITOR_URL :: "jsstring option"
  DEV_MONITOR_URL :: "jsstring option"
  DISCORD_WEBHOOK_URL_var :: "jsstring option"
  FORCE_STATUS_REPORT :: "jsstring option"

text \<open>
  \<open>TARGETS\<close>: the three entries, of which \<open>.filter(target => target.url)\<close> keeps
  those whose variable is set to a string that is not empty.
\<close>

definition configured :: "jsstring \<Rightarrow> jsstring option \<Rightarrow> nat \<Rightarrow> target option" where
  "configured n u t =
     (case u of
        None \<Rightarrow> None
      | Some s \<Rightarrow>
          if s = [] then None
          else Some \<lparr>name = n, url = s, expectStatus = Some 200, expectText = None,
                      timeoutMs = t\<rparr>)"

definition TARGETS :: "environment \<Rightarrow> target list" where
  "TARGETS env =
     List.map_filter id
       [configured (str ''Production'') (PROD_MONITOR_URL env) 8000,
        configured (str ''Staging'') (STAGING_MONITOR_URL env) 8000,
        configured (str ''Development'') (DEV_MONITOR_URL env) 6000]"

definition RETRIES :: nat where "RETRIES = 2"
definition COOLDOWN_MS :: nat where "COOLDOWN_MS = 1000"
definition SLOW_THRESHOLD_MS :: nat where "SLOW_THRESHOLD_MS = 2500"

text \<open>\<open>process.env.DISCORD_WEBHOOK_URL || ""\<close>.\<close>

definition DISCORD_WEBHOOK_URL :: "environment \<Rightarrow> jsstring" where
  "DISCORD_WEBHOOK_URL env =
     (case DISCORD_WEBHOOK_URL_var env of None \<Rightarrow> [] | Some s \<Rightarrow> s)"

section \<open>Outcomes and the change detectors\<close>

text \<open>The object \<open>checkOnce\<close> returns; \<open>ms\<close> and \<open>error\<close> may be \<open>null\<close>.\<close>

record outcome =
  name :: jsstring
  url :: jsstring
  up :: bool
  status :: nat
  ms :: "nat option"
  slow :: bool
  error :: "jsstring option"

datatype change_type = initial_down | recovered | went_down | down

text \<open>An entry of \<open>changes\<close> in \<open>detectChanges\<close>: \<open>{ type, result }\<close>.\<close>

record change =
  type :: change_type
  result :: outcome

text \<open>
  An entry of \<open>changes\<close> in \<open>getChangedServices\<close>: the outcome's fields together with
  \<open>previousState\<close> and \<open>changeType\<close>.
\<close>

record changed_service = outcome +
  previousState :: jsval
  changeType :: change_type

subsection \<open>detectChanges (the detector with initial-down alerts)\<close>

fun detectChanges_loop ::
  "runtime \<Rightarrow> json \<Rightarrow> outcome list \<Rightarrow> change list \<Rightarrow> exn + change list" where
  "detectChanges_loop rt prev [] changes = Inr changes"
| "detectChanges_loop rt prev (r # rs) changes =
     (case get_prop rt prev (url r) of
        Inl e \<Rightarrow> Inl e
      | Inr wasUp \<Rightarrow>
          (let isUp = up r in
           if wasUp = Undefined then
             (if \<not> isUp
              then detectChanges_loop rt prev rs
                     (changes @ [\<lparr>type = initial_down, result = r\<rparr>])
              else detectChanges_loop rt prev rs changes)
           else if wasUp \<noteq> Val (JBool isUp) then
             (if isUp
              then detectChanges_loop rt prev rs
                     (changes @ [\<lparr>type = recovered, result = r\<rparr>])
              else detectChanges_loop rt prev rs
                     (changes @ [\<lparr>type = went_down, result = r\<rparr>]))
           else detectChanges_loop rt prev rs changes))"

definition detectChanges ::
  "runtime \<Rightarrow> outcome list \<Rightarrow> json \<Rightarrow> exn + change list" where
  "detectChanges rt currentResults prev = detectChanges_loop rt prev currentResults []"

subsection \<open>getChangedServices (the detector that skips unknown services)\<close>

fun getChangedServices_loop ::
  "runtime \<Rightarrow> json \<Rightarrow> outcome list \<Rightarrow> changed_service list
     \<Rightarrow> exn + changed_service list" where
  "getChangedServices_loop rt prev [] changes = Inr changes"
| "getChangedServices_loop rt prev (r # rs) changes =
     (case get_prop rt prev (url r) of
        Inl e \<Rightarrow> Inl e
      | Inr wasUp \<Rightarrow>
          (let isUp = up r in
           if wasUp = Undefined then getChangedServices_loop rt prev rs changes
           else if wasUp \<noteq> Val (JBool isUp) then
             getChangedServices_loop rt prev rs
               (changes @ [outcome.extend r
                  \<lparr>previousState = wasUp,
                   changeType = (if isUp then recovered else down)\<rparr>])
           else getChangedServices_loop rt prev rs changes))"

definition getChangedServices ::
  "runtime \<Rightarrow> outcome list \<Rightarrow> json \<Rightarrow> exn + changed_service list" where
  "getChangedServices rt currentResults prev =
     getChangedServices_loop rt prev currentResults []"

subsection \<open>hasChanges (the detector that counts a first sight as a change)\<close>

fun hasChanges :: "runtime \<Rightarrow> outcome list \<Rightarrow> json \<Rightarrow> exn + bool" where
  "hasChanges rt [] prev = Inr False"
| "hasChanges rt (r # rs) prev =
     (case get_prop rt prev (url r) of
        Inl e \<Rightarrow> Inl e
      | Inr wasUp \<Rightarrow>
          (let isUp = up r in
           if wasUp = Undefined then Inr True
           else if wasUp \<noteq> Val (JBool isUp) then Inr True
           else hasChanges rt rs prev))"

section \<open>The prober and the retrier\<close>

text \<open>
  What one call of \<open>fetch\<close> does, as \<open>checkOnce\<close> sees it: the promise is rejected (a
  transport error, or the abort the timer triggers), or it yields a response with its
  status and the rounded time it took; reading the body of the response then yields
  the text or is rejected in turn.
\<close>

datatype body_read = BodyText jsstring | BodyRejected exn

datatype fetch_result = Rejected exn | Responded nat nat body_read

text \<open>\<open>res.ok\<close>: the status is in the range 200 to 299.\<close>

definition response_ok :: "nat \<Rightarrow> bool" where
  "response_ok st = (200 \<le> st \<and> st \<le> 299)"

text \<open>\<open>text.includes(sub)\<close>.\<close>

fun includes_str :: "jsstring \<Rightarrow> jsstring \<Rightarrow> bool" where
  "includes_str [] sub = (sub = [])"
| "includes_str (c # cs) sub = (take (length sub) (c # cs) = sub \<or> includes_str cs sub)"

text \<open>The object returned by the \<open>catch\<close> branch of \<open>checkOnce\<close>.\<close>

definition failed_outcome :: "target \<Rightarrow> exn \<Rightarrow> outcome" where
  "failed_outcome tgt err =
     \<lparr>name = target.name tgt, url = target.url tgt, up = False, status = 0,
      ms = None, slow = False, error = Some (message_or_string err)\<rparr>"

text \<open>
  \<open>checkOnce\<close>, given what the network does. \<open>lower\<close> is \<open>String.prototype.toLowerCase\<close>.
  A number is truthy unless it is 0, a string unless it is empty, and \<open>null\<close> is not.
\<close>

definition checkOnce :: "(jsstring \<Rightarrow> jsstring) \<Rightarrow> target \<Rightarrow> fetch_result \<Rightarrow> outcome" where
  "checkOnce lower tgt fr =
     (case fr of
        Rejected err \<Rightarrow> failed_outcome tgt err
      | Responded st elapsed body \<Rightarrow>
          (let okStatus =
                 (case expectStatus tgt of
                    None \<Rightarrow> response_ok st
                  | Some e \<Rightarrow> if e \<noteq> 0 then st = e else response_ok st);
               okText =
                 (case expectText tgt of
                    None \<Rightarrow> Inr True
                  | Some sub \<Rightarrow>
                      if sub = [] then Inr True
                      else (case body of
                              BodyRejected err \<Rightarrow> Inl err
                            | BodyText text \<Rightarrow> Inr (includes_str (lower text) (lower sub))))
           in case okText of
                Inl err \<Rightarrow> failed_outcome tgt err
              | Inr t \<Rightarrow>
                  \<lparr>name = target.name tgt, url = target.url tgt, up = (okStatus \<and> t),
                   status = st, ms = Some elapsed, slow = (elapsed > SLOW_THRESHOLD_MS),
                   error = None\<rparr>))"

text \<open>
  \<open>checkWithRetries\<close>. \<open>net i\<close> is what the network does at the call of \<open>checkOnce\<close>
  in iteration \<open>i\<close>. The loop returns the value of \<open>last\<close> (\<open>None\<close> is \<open>undefined\<close>, its
  value before the first assignment) and the trace of what it did: the probes and
  the waits, in order.
\<close>

datatype event = Probe nat | Wait nat

function checkWithRetries_loop ::
  "(jsstring \<Rightarrow> jsstring) \<Rightarrow> target \<Rightarrow> (nat \<Rightarrow> fetch_result) \<Rightarrow> nat \<Rightarrow> outcome option
     \<Rightarrow> event list \<Rightarrow> outcome option \<times> event list" where
  "checkWithRetries_loop lower tgt net i last' tr =
     (if i \<le> RETRIES then
        (let l = checkOnce lower tgt (net i);
             tr1 = tr @ [Probe i]
         in if up l then (Some l, tr1)
            else if i < RETRIES
            then checkWithRetries_loop lower tgt net (Suc i) (Some l) (tr1 @ [Wait COOLDOWN_MS])
            else checkWithRetries_loop lower tgt net (Suc i) (Some l) tr1)
      else (last', tr))"
  by pat_completeness auto
termination
  by (relation "measure (\<lambda>(lower, tgt, net, i, last', tr). Suc RETRIES - i)") auto

definition checkWithRetries ::
  "(jsstring \<Rightarrow> jsstring) \<Rightarrow> target \<Rightarrow> (nat \<Rightarrow> fetch_result) \<Rightarrow> outcome option \<times> event list" where
  "checkWithRetries lower tgt net = checkWithRetries_loop lower tgt net 0 None []"

section \<open>The reporter\<close>

text \<open>
  The request \<open>notify\<close> posts, and \<open>notify\<close> itself: \<open>transport\<close> is what the call of
  \<open>fetch\<close> does with the request (\<open>Inl\<close> is a rejected promise). \<open>.catch(() => {})\<close>
  turns a rejection into a promise fulfilled with \<open>undefined\<close>. The result of
  \<open>notify\<close> is how it completes and the requests it made.
\<close>

record request =
  req_url :: jsstring
  req_method :: jsstring
  req_headers :: "(jsstring \<times> jsstring) list"
  req_body :: jsstring

definition catch_ignore :: "exn + 'a \<Rightarrow> exn + 'a option" where
  "catch_ignore p = (case p of Inl e \<Rightarrow> Inr None | Inr v \<Rightarrow> Inr (Some v))"

definition notify ::
  "jsstring \<Rightarrow> (request \<Rightarrow> exn + unit) \<Rightarrow> jsstring \<Rightarrow> (exn + unit) \<times> request list" where
  "notify webhook transport message =
     (if webhook \<noteq> [] then
        (let req = \<lparr>req_url = webhook, req_method = str ''POST'',
                     req_headers = [(str ''content-type'', str ''application/json'')],
                     req_body = stringify_content message\<rparr>
         in case catch_ignore (transport req) of
              Inl e \<Rightarrow> (Inl e, [req])
            | Inr v \<Rightarrow> (Inr (), [req]))
      else (Inr (), []))"

subsection \<open>Messages\<close>

definition cross_mark :: jsstring where "cross_mark = [0x274C]"
definition check_mark :: jsstring where "check_mark = [0x2705]"
definition bar_chart :: jsstring where "bar_chart = [0xD83D, 0xDCCA]"
definition green_circle :: jsstring where "green_circle = [0xD83D, 0xDFE2]"
definition red_circle :: jsstring where "red_circle = [0xD83D, 0xDD34]"
definition alarm_clock :: jsstring where "alarm_clock = [0x23F0]"
definition one_oclock :: jsstring where "one_oclock = [0xD83D, 0xDD50]"
definition rotating_light :: jsstring where "rotating_light = [0xD83D, 0xDEA8]"

text \<open>A number or \<open>null\<close> in a template literal.\<close>

definition show_ms :: "nat option \<Rightarrow> jsstring" where
  "show_ms m = (case m of None \<Rightarrow> str ''null'' | Some n \<Rightarrow> dec n)"

definition show_int :: "int \<Rightarrow> jsstring" where
  "show_int i = (if i < 0 then [0x2D] @ dec (nat (- i)) else dec (nat i))"

text \<open>\<open>result.error ?? "n/a"\<close>.\<close>

definition show_error :: "jsstring option \<Rightarrow> jsstring" where
  "show_error e = (case e of None \<Rightarrow> str ''n/a'' | Some m \<Rightarrow> m)"

definition fmt :: "outcome \<Rightarrow> jsstring" where
  "fmt r =
     (let envName = (if name r \<noteq> [] then name r else str ''Service'')
      in if \<not> up r
         then cross_mark @ str '' DOWN: **'' @ envName @ str ''** - '' @ url r
              @ str '' (status='' @ dec (status r) @ str '', error='' @ show_error (error r)
              @ str '')''
         else check_mark @ str '' OK: **'' @ envName @ str ''** - '' @ url r
              @ str '' ('' @ show_ms (ms r) @ str '' ms, status='' @ dec (status r)
              @ str '')'')"

definition up_line :: "outcome \<Rightarrow> jsstring" where
  "up_line service =
     check_mark @ str '' **'' @ name service @ str ''** - '' @ url service
     @ str '' ('' @ show_ms (ms service) @ str '' ms, status='' @ dec (status service)
     @ str '')'' @ [0x0A]"

definition down_line :: "outcome \<Rightarrow> jsstring" where
  "down_line service =
     cross_mark @ str '' **'' @ name service @ str ''** - '' @ url service
     @ str '' (status='' @ dec (status service) @ str '', error=''
     @ show_error (error service) @ str '')'' @ [0x0A]"

text \<open>\<open>formatStatusMessage(results, timestamp, executionTime)\<close> of \<open>monitor.mjs\<close>.\<close>

definition formatStatusMessage :: "outcome list \<Rightarrow> jsstring \<Rightarrow> int \<Rightarrow> jsstring" where
  "formatStatusMessage results timestamp executionTime =
     (let upServices = filter (\<lambda>r. up r) results;
          downServices = filter (\<lambda>r. \<not> up r) results;
          m0 = bar_chart @ str '' **SERVICE STATUS UPDATES**'' @ [0x0A, 0x0A];
          m1 = (if length upServices > 0
                then foldl (\<lambda>m service. m @ up_line service)
                       (m0 @ green_circle @ str '' **Services Up**'' @ [0x0A]) upServices
                else m0);
          m2 = (if length downServices > 0
                then foldl (\<lambda>m service. m @ down_line service)
                       ((if length upServices > 0 then m1 @ [0x0A] else m1)
                        @ red_circle @ str '' **Services Down**'' @ [0x0A]) downServices
                else m1)
      in m2 @ [0x0A] @ alarm_clock @ str '' **'' @ timestamp @ str '' ART** | '' @ one_oclock
         @ str '' Execution time: '' @ show_int executionTime @ str ''ms'')"

section \<open>The orchestrator\<close>

text \<open>
  What the program meets outside itself during one run: the prototype chains of the
  runtime, its \<open>toLowerCase\<close>, what the network does at each probe of each target
  (\<open>network j i\<close> for iteration \<open>i\<close> of the target at position \<open>j\<close> of \<open>TARGETS\<close>),
  what the webhook does with a request, and the clock readings: \<open>Date.now()\<close> before
  and after the probes, the ISO time of the log line, and the local times of the
  report and of the failure message.
\<close>

record platform =
  prototypes :: runtime
  toLowerCase :: "jsstring \<Rightarrow> jsstring"
  network :: "nat \<Rightarrow> nat \<Rightarrow> fetch_result"
  webhook_fetch :: "request \<Rightarrow> exn + unit"
  startTime :: int
  endTime :: int
  isoTime :: jsstring
  localTime :: jsstring
  failureTime :: jsstring

text \<open>
  What a run leaves behind: how \<open>main\<close> completed, the file system, the messages
  \<open>notify\<close> was called with, the requests posted, and the lines on the console.
\<close>

record run =
  completion :: "exn + unit"
  disk :: fs
  notifications :: "jsstring list"
  posts :: "request list"
  console :: "jsstring list"

text \<open>\<open>Promise.all(TARGETS.map(checkWithRetries))\<close>: the values of \<open>last\<close>, in order.\<close>

definition probe_all :: "platform \<Rightarrow> target list \<Rightarrow> outcome option list" where
  "probe_all pf ts =
     map (\<lambda>(j, t). fst (checkWithRetries (toLowerCase pf) t (network pf j)))
       (List.enumerate 0 ts)"

text \<open>Reading \<open>result.name\<close> of a result that is \<open>undefined\<close>.\<close>

definition undefined_read_error :: exn where
  "undefined_read_error =
     Exn (str ''TypeError'') (str ''Cannot read properties of undefined (reading 'name')'')"

text \<open>\<open>results.forEach(r => currentState[r.url] = r.up)\<close> on \<open>currentState = {}\<close>.\<close>

definition currentState :: "outcome list \<Rightarrow> (jsstring \<times> bool) list" where
  "currentState results = foldl (\<lambda>st r. obj_set st (url r) (up r)) [] results"

definition forceReport :: "environment \<Rightarrow> bool" where
  "forceReport env = (FORCE_STATUS_REPORT env = Some (str ''true''))"

definition log_line :: "platform \<Rightarrow> outcome list \<Rightarrow> jsstring" where
  "log_line pf results = isoTime pf @ str '' '' @ [0x0A] @ join [0x0A] (map fmt results)"

subsection \<open>main of monitor.mjs\<close>

definition main :: "environment \<Rightarrow> platform \<Rightarrow> fs \<Rightarrow> run" where
  "main env pf d =
     (case those (probe_all pf (TARGETS env)) of
        None \<Rightarrow> \<lparr>completion = Inl undefined_read_error, disk = d, notifications = [],
                  posts = [], console = []\<rparr>
      | Some results \<Rightarrow>
          (let executionTime = endTime pf - startTime pf;
               log1 = log_line pf results;
               previousState = loadPreviousState d
           in case hasChanges (prototypes pf) results previousState of
                Inl e \<Rightarrow> \<lparr>completion = Inl e, disk = d, notifications = [], posts = [],
                          console = [log1]\<rparr>
              | Inr shouldNotify \<Rightarrow>
                  (let (d', warnings) = savePreviousState d (currentState results)
                   in if shouldNotify \<or> forceReport env then
                        (let statusMessage =
                               formatStatusMessage results (localTime pf) executionTime;
                             (c, reqs) = notify (DISCORD_WEBHOOK_URL env) (webhook_fetch pf)
                                           statusMessage
                         in case c of
                              Inl e \<Rightarrow> \<lparr>completion = Inl e, disk = d',
                                        notifications = [statusMessage], posts = reqs,
                                        console = [log1] @ warnings\<rparr>
                            | Inr u \<Rightarrow>
                                \<lparr>completion = Inr (), disk = d',
                                 notifications = [statusMessage], posts = reqs,
                                 console = [log1] @ warnings @
                                   [if forceReport env
                                    then str ''Manual status report sent to Discord''
                                    else str ''Status notification sent to Discord'']\<rparr>)
                      else
                        \<lparr>completion = Inr (), disk = d', notifications = [], posts = [],
                         console = [log1] @ warnings @
                           [str ''All services up and no changes detected - no notifications sent'']\<rparr>)))"

text \<open>
  The module: \<open>main().catch(...)\<close>. When \<open>main\<close> fails, the handler writes the error
  to the console (the stack trace it prints is left out), notifies the failure and
  exits with code 1; otherwise the process ends with code 0.
\<close>

definition failure_message :: "platform \<Rightarrow> exn \<Rightarrow> jsstring" where
  "failure_message pf e =
     cross_mark @ str '' **Monitor failed**: '' @ message_or_string e @ [0x0A, 0x0A]
     @ alarm_clock @ str '' **'' @ failureTime pf @ str '' ART**''"

definition monitor :: "environment \<Rightarrow> platform \<Rightarrow> fs \<Rightarrow> run \<times> nat" where
  "monitor env pf d =
     (let r = main env pf d
      in case completion r of
           Inr u \<Rightarrow> (r, 0)
         | Inl e \<Rightarrow>
             (let (c, reqs) = notify (DISCORD_WEBHOOK_URL env) (webhook_fetch pf)
                                (failure_message pf e)
              in (r\<lparr>notifications := notifications r @ [failure_message pf e],
                     posts := posts r @ reqs,
                     console := console r @ [str ''Fatal: '' @ String e]\<rparr>, 1)))"

subsection \<open>main of the version with detectChanges\<close>

text \<open>The \<open>switch\<close> on \<open>change.type\<close>: no case, and no message, for another type.\<close>

definition change_message :: "change \<Rightarrow> jsstring list" where
  "change_message c =
     (case type c of
        initial_down \<Rightarrow>
          [rotating_light @ str '' **INITIAL CHECK - SERVICE DOWN**'' @ [0x0A] @ fmt (result c)]
      | went_down \<Rightarrow>
          [red_circle @ str '' **SERVICE WENT DOWN**'' @ [0x0A] @ fmt (result c)]
      | recovered \<Rightarrow>
          [green_circle @ str '' **SERVICE RECOVERED**'' @ [0x0A] @ fmt (result c)]
      | down \<Rightarrow> [])"

definition status_report :: "outcome list \<Rightarrow> jsstring" where
  "status_report results =
     join [0x0A] ([bar_chart @ str '' **CURRENT STATUS REPORT**'', []] @ map fmt results)"

definition main_detectChanges :: "environment \<Rightarrow> platform \<Rightarrow> fs \<Rightarrow> run" where
  "main_detectChanges env pf d =
     (case those (probe_all pf (TARGETS env)) of
        None \<Rightarrow> \<lparr>completion = Inl undefined_read_error, disk = d, notifications = [],
                  posts = [], console = []\<rparr>
      | Some results \<Rightarrow>
          (let log1 = log_line pf results;
               previousState = loadPreviousState d
           in case detectChanges (prototypes pf) results previousState of
                Inl e \<Rightarrow> \<lparr>completion = Inl e, disk = d, notifications = [], posts = [],
                          console = [log1]\<rparr>
              | Inr changes \<Rightarrow>
                  (let (d', warnings) = savePreviousState d (currentState results)
                   in if length changes > 0 then
                        (let messages = concat (map change_message changes)
                         in if length messages > 0 then
                              (let (c, reqs) =
                                     notify (DISCORD_WEBHOOK_URL env) (webhook_fetch pf)
                                       (join [0x0A, 0x0A] messages)
                               in \<lparr>completion = c, disk = d',
                                   notifications = [join [0x0A, 0x0A] messages],
                                   posts = reqs, console = [log1] @ warnings\<rparr>)
                            else \<lparr>completion = Inr (), disk = d', notifications = [],
                                   posts = [], console = [log1] @ warnings\<rparr>)
                      else if forceReport env then
                        (let statusMessage = status_report results;
                             (c, reqs) = notify (DISCORD_WEBHOOK_URL env) (webhook_fetch pf)
                                           statusMessage
                         in case c of
                              Inl e \<Rightarrow> \<lparr>completion = Inl e, disk = d',
                                        notifications = [statusMessage], posts = reqs,
                                        console = [log1] @ warnings\<rparr>
                            | Inr u \<Rightarrow>
                                \<lparr>completion = Inr (), disk = d',
                                 notifications = [statusMessage], posts = reqs,
                                 console = [log1] @ warnings @
                                   [str ''Manual status report sent to Discord'']\<rparr>)
                      else
                        \<lparr>completion = Inr (), disk = d', notifications = [], posts = [],
                         console = [log1] @ warnings @
                           [str ''No status changes detected - no notifications sent'']\<rparr>)))"

section \<open>Example inputs\<close>

text \<open>
  Concrete inputs, on which the theorems below are instantiated: a target, a network
  that refuses the first two probes of a target and answers the third with status 200,
  a network that always refuses, an outcome that is down and one that is up, the
  lower case of ASCII letters, a target that expects a text, a file system without a
  state file, an environment with one URL, a platform whose network always refuses and
  one whose network always answers with status 200, two messages of the operating
  system, and the object \<open>JSON.parse\<close> builds from the text \<open>stringify_state\<close>
  writes for a state.
\<close>

definition example_target :: target where
  "example_target =
     \<lparr>target.name = str ''Production'', target.url = str ''https://a.example'',
      expectStatus = Some 200, expectText = None, timeoutMs = 8000\<rparr>"

definition fetch_failed :: exn where
  "fetch_failed = Exn (str ''TypeError'') (str ''fetch failed'')"

definition third_time_lucky :: "nat \<Rightarrow> fetch_result" where
  "third_time_lucky i = (if i = 2 then Responded 200 120 (BodyText []) else Rejected fetch_failed)"

definition unreachable :: "nat \<Rightarrow> fetch_result" where
  "unreachable i = Rejected fetch_failed"

definition example_down :: outcome where
  "example_down =
     \<lparr>name = str ''Production'', url = str ''https://a.example'', up = False, status = 0,
      ms = None, slow = False, error = Some (str ''fetch failed'')\<rparr>"

definition example_up :: outcome where
  "example_up =
     \<lparr>name = str ''Production'', url = str ''https://a.example'', up = True, status = 200,
      ms = Some 120, slow = False, error = None\<rparr>"

definition ascii_lower :: "jsstring \<Rightarrow> jsstring" where
  "ascii_lower s = map (\<lambda>c. if 0x41 \<le> c \<and> c \<le> 0x5A then c + 0x20 else c) s"

definition example_text_target :: target where
  "example_text_target =
     \<lparr>target.name = str ''Staging'', target.url = str ''https://b.example'',
      expectStatus = None, expectText = Some (str ''Status: OK''), timeoutMs = 8000\<rparr>"

definition example_fs :: fs where
  "example_fs = \<lparr>content = None, read_error = None, parent_exists = True,
                  mkdir_error = None, write_fault = None\<rparr>"

definition example_env :: environment where
  "example_env =
     \<lparr>PROD_MONITOR_URL = Some (str ''https://a.example''), STAGING_MONITOR_URL = None,
      DEV_MONITOR_URL = None, DISCORD_WEBHOOK_URL_var = Some (str ''https://hook.example''),
      FORCE_STATUS_REPORT = None\<rparr>"

definition example_platform :: platform where
  "example_platform =
     \<lparr>prototypes = node_prototypes, toLowerCase = ascii_lower,
      network = (\<lambda>j. unreachable), webhook_fetch = (\<lambda>r. Inr ()),
      startTime = 1000, endTime = 4250, isoTime = str ''2025-01-01T00:00:00.000Z'',
      localTime = str ''12/31/2024, 21:00:00'', failureTime = str ''12/31/2024, 21:00:01''\<rparr>"

definition example_platform_up :: platform where
  "example_platform_up =
     example_platform\<lparr>network := (\<lambda>j i. Responded 200 120 (BodyText []))\<rparr>"

definition example_eacces :: jsstring where
  "example_eacces = str ''EACCES: permission denied, open '' @ [0x27] @ STATE_FILE @ [0x27]"

definition example_enospc :: jsstring where
  "example_enospc = str ''ENOSPC: no space left on device, write''"

definition state_object :: "(jsstring \<times> json) list \<Rightarrow> (jsstring \<times> bool) list \<Rightarrow> (jsstring \<times> json) list" where
  "state_object acc st = foldl (\<lambda>a kv. define_own a (fst kv) (JBool (snd kv))) acc st"

section \<open>The retrier: proofs\<close>

declare checkWithRetries_loop.simps [simp del]

lemma checkWithRetries_loop_past:
  "RETRIES < i \<Longrightarrow> checkWithRetries_loop lower tgt net i l tr = (l, tr)"
  by (subst checkWithRetries_loop.simps) simp

text \<open>
  The loop started at iteration \<open>i\<close>, when \<open>k\<close> is the first iteration from \<open>i\<close> on
  whose probe is up, or the last iteration when none is.
\<close>

lemma checkWithRetries_loop_first_up:
  assumes "i \<le> k" and "k \<le> RETRIES"
    and "\<forall>j. i \<le> j \<and> j < k \<longrightarrow> \<not> up (checkOnce lower tgt (net j))"
    and "up (checkOnce lower tgt (net k)) \<or> k = RETRIES"
  shows "checkWithRetries_loop lower tgt net i l tr =
           (Some (checkOnce lower tgt (net k)),
            tr @ concat (map (\<lambda>j. [Probe j, Wait COOLDOWN_MS]) [i..<k]) @ [Probe k])"
  using assms
proof (induction "k - i" arbitrary: i l tr)
  case 0
  then have ik: "i = k" by simp
  show ?case
  proof (cases "up (checkOnce lower tgt (net k))")
    case True
    then show ?thesis using ik "0.prems"(2)
      by (subst checkWithRetries_loop.simps) (simp add: Let_def)
  next
    case False
    with "0.prems"(4) have "k = RETRIES" by simp
    then show ?thesis using ik False
      by (subst checkWithRetries_loop.simps) (simp add: Let_def checkWithRetries_loop_past)
  qed
next
  case (Suc d)
  then have lt: "i < k" by simp
  with Suc.prems have nu: "\<not> up (checkOnce lower tgt (net i))" by simp
  have step: "checkWithRetries_loop lower tgt net i l tr =
      checkWithRetries_loop lower tgt net (Suc i) (Some (checkOnce lower tgt (net i)))
        ((tr @ [Probe i]) @ [Wait COOLDOWN_MS])"
    using lt Suc.prems(2) nu
    by (subst checkWithRetries_loop.simps) (simp add: Let_def)
  have "checkWithRetries_loop lower tgt net (Suc i) (Some (checkOnce lower tgt (net i)))
        ((tr @ [Probe i]) @ [Wait COOLDOWN_MS]) =
           (Some (checkOnce lower tgt (net k)),
            ((tr @ [Probe i]) @ [Wait COOLDOWN_MS])
              @ concat (map (\<lambda>j. [Probe j, Wait COOLDOWN_MS]) [Suc i..<k]) @ [Probe k])"
    using Suc.hyps(2) lt Suc.prems by (intro Suc.hyps(1)) auto
  with step show ?case using lt by (simp add: upt_conv_Cons)
qed

lemma checkWithRetries_cases:
  "\<exists>k\<le>RETRIES.
      (\<forall>j<k. \<not> up (checkOnce lower tgt (net j)))
    \<and> (up (checkOnce lower tgt (net k)) \<or> k = RETRIES)
    \<and> checkWithRetries lower tgt net =
         (Some (checkOnce lower tgt (net k)),
          concat (map (\<lambda>j. [Probe j, Wait COOLDOWN_MS]) [0..<k]) @ [Probe k])"
proof -
  define P where "P = (\<lambda>j. up (checkOnce lower tgt (net j)))"
  define k where "k = (if \<exists>j\<le>RETRIES. P j then (LEAST j. P j) else RETRIES)"
  have kle: "k \<le> RETRIES"
    unfolding k_def by (auto intro: Least_le order_trans)
  have below: "\<forall>j<k. \<not> P j"
  proof (cases "\<exists>j\<le>RETRIES. P j")
    case True
    then have "k = (LEAST j. P j)" by (simp add: k_def)
    then show ?thesis using not_less_Least by blast
  next
    case False
    then show ?thesis using kle by auto
  qed
  have at: "P k \<or> k = RETRIES"
    unfolding k_def by (auto intro: LeastI)
  have "checkWithRetries lower tgt net =
         (Some (checkOnce lower tgt (net k)),
          [] @ concat (map (\<lambda>j. [Probe j, Wait COOLDOWN_MS]) [0..<k]) @ [Probe k])"
    unfolding checkWithRetries_def
    using kle below at by (intro checkWithRetries_loop_first_up) (auto simp: P_def)
  then show ?thesis using kle below at unfolding P_def by auto
qed

lemma checkWithRetries_returns: "\<exists>r. fst (checkWithRetries lower tgt net) = Some r"
  using checkWithRetries_cases[of lower tgt net] by auto

text \<open>
  Claim C3. \<open>checkWithRetries\<close> always returns an outcome. There is an iteration
  \<open>k \<le> RETRIES\<close> such that no probe before \<open>k\<close> is up, the probe of \<open>k\<close> is up or
  \<open>k\<close> is the last iteration, the outcome returned is the one of probe \<open>k\<close>, and the
  function has made the probes \<open>0\<close> to \<open>k\<close> (at most \<open>RETRIES + 1\<close>), with one wait of
  \<open>COOLDOWN_MS\<close> after each probe but the last.
\<close>

theorem checkWithRetries_spec:
  "\<exists>k\<le>RETRIES.
      (\<forall>j<k. \<not> up (checkOnce lower tgt (net j)))
    \<and> (up (checkOnce lower tgt (net k)) \<or> k = RETRIES)
    \<and> checkWithRetries lower tgt net =
         (Some (checkOnce lower tgt (net k)),
          concat (map (\<lambda>j. [Probe j, Wait COOLDOWN_MS]) [0..<k]) @ [Probe k])"
  by (rule checkWithRetries_cases)

lemma upt_2: "[0..<2] = [0, Suc 0]" by (simp add: upt_rec)

theorem checkWithRetries_spec_witness:
  "checkWithRetries id example_target third_time_lucky =
     (Some \<lparr>name = str ''Production'', url = str ''https://a.example'', up = True,
            status = 200, ms = Some 120, slow = False, error = None\<rparr>,
      [Probe 0, Wait 1000, Probe 1, Wait 1000, Probe 2])"
proof -
  have a: "\<And>j. up (checkOnce id example_target (third_time_lucky j)) \<longleftrightarrow> j = 2"
    by (simp add: checkOnce_def third_time_lucky_def example_target_def failed_outcome_def
        response_ok_def)
  obtain k where k: "k \<le> RETRIES"
      "up (checkOnce id example_target (third_time_lucky k)) \<or> k = RETRIES"
      "checkWithRetries id example_target third_time_lucky =
         (Some (checkOnce id example_target (third_time_lucky k)),
          concat (map (\<lambda>j. [Probe j, Wait COOLDOWN_MS]) [0..<k]) @ [Probe k])"
    using checkWithRetries_spec[of id example_target third_time_lucky] by blast
  from k(2) have "k = 2" by (simp add: a RETRIES_def)
  with k(3) show ?thesis
    by (simp add: upt_2 COOLDOWN_MS_def checkOnce_def third_time_lucky_def example_target_def
        SLOW_THRESHOLD_MS_def response_ok_def)
qed

section \<open>The change detectors: proofs\<close>

lemma get_prop_total: "prev \<noteq> JNull \<Longrightarrow> \<exists>w. get_prop rt prev k = Inr w"
  by (cases prev) (auto split: option.splits)

lemma get_prop_obj_absent:
  "map_of kvs k = None \<Longrightarrow> \<not> rt (JObj kvs) k \<Longrightarrow> get_prop rt (JObj kvs) k = Inr Undefined"
  by (simp add: proto_lookup_def)

lemma get_prop_obj_own:
  "map_of kvs k = Some v \<Longrightarrow> get_prop rt (JObj kvs) k = Inr (Val v)"
  by simp

text \<open>
  When the previous state is not \<open>null\<close> the loops do not fail, and what they add to
  \<open>changes\<close> does not depend on what \<open>changes\<close> holds already.
\<close>

lemma detectChanges_loop_acc:
  assumes "prev \<noteq> JNull"
  shows "\<exists>cs. \<forall>acc. detectChanges_loop rt prev rs acc = Inr (acc @ cs)"
proof (induction rs)
  case Nil
  show ?case by (intro exI[of _ "[]"]) simp
next
  case (Cons r rs)
  then obtain cs where cs: "\<And>acc. detectChanges_loop rt prev rs acc = Inr (acc @ cs)"
    by blast
  obtain w where w: "get_prop rt prev (url r) = Inr w"
    using get_prop_total[OF assms] by blast
  show ?case
    by (intro exI[of _ "(if w = Undefined
                         then (if \<not> up r then [\<lparr>type = initial_down, result = r\<rparr>] else [])
                         else if w \<noteq> Val (JBool (up r))
                         then (if up r then [\<lparr>type = recovered, result = r\<rparr>]
                               else [\<lparr>type = went_down, result = r\<rparr>])
                         else []) @ cs"])
       (simp add: w cs Let_def del: get_prop.simps)
qed

lemma detectChanges_loop_append:
  assumes "prev \<noteq> JNull"
    and "detectChanges_loop rt prev xs [] = Inr a"
    and "detectChanges_loop rt prev ys [] = Inr b"
  shows "detectChanges_loop rt prev (xs @ ys) acc = Inr (acc @ a @ b)"
  using assms(2,3)
proof (induction xs arbitrary: acc a)
  case Nil
  obtain cs where cs: "\<And>acc. detectChanges_loop rt prev ys acc = Inr (acc @ cs)"
    using detectChanges_loop_acc[OF assms(1)] by blast
  with Nil show ?case by (metis append_Nil sum.inject(2) detectChanges_loop.simps(1))
next
  case (Cons r xs)
  obtain cs where cs: "\<And>acc. detectChanges_loop rt prev xs acc = Inr (acc @ cs)"
    using detectChanges_loop_acc[OF assms(1)] by blast
  obtain w where w: "get_prop rt prev (url r) = Inr w"
    using get_prop_total[OF assms(1)] by blast
  have IH: "\<And>acc. detectChanges_loop rt prev (xs @ ys) acc = Inr (acc @ cs @ b)"
    using Cons.IH[of cs] cs[of "[]"] Cons.prems(2) by simp
  from Cons.prems(1) show ?case
    by (simp add: w cs IH Let_def del: get_prop.simps split: if_splits)
qed

lemma getChangedServices_loop_acc:
  assumes "prev \<noteq> JNull"
  shows "\<exists>cs. \<forall>acc. getChangedServices_loop rt prev rs acc = Inr (acc @ cs)"
proof (induction rs)
  case Nil
  show ?case by (intro exI[of _ "[]"]) simp
next
  case (Cons r rs)
  then obtain cs where cs: "\<And>acc. getChangedServices_loop rt prev rs acc = Inr (acc @ cs)"
    by blast
  obtain w where w: "get_prop rt prev (url r) = Inr w"
    using get_prop_total[OF assms] by blast
  show ?case
    by (intro exI[of _ "(if w = Undefined then []
                         else if w \<noteq> Val (JBool (up r))
                         then [outcome.extend r
                                 \<lparr>previousState = w,
                                  changeType = (if up r then recovered else down)\<rparr>]
                         else []) @ cs"])
       (simp add: w cs Let_def del: get_prop.simps)
qed

lemma getChangedServices_loop_append:
  assumes "prev \<noteq> JNull"
    and "getChangedServices_loop rt prev xs [] = Inr a"
    and "getChangedServices_loop rt prev ys [] = Inr b"
  shows "getChangedServices_loop rt prev (xs @ ys) acc = Inr (acc @ a @ b)"
  using assms(2,3)
proof (induction xs arbitrary: acc a)
  case Nil
  obtain cs where cs: "\<And>acc. getChangedServices_loop rt prev ys acc = Inr (acc @ cs)"
    using getChangedServices_loop_acc[OF assms(1)] by blast
  with Nil show ?case by (metis append_Nil sum.inject(2) getChangedServices_loop.simps(1))
next
  case (Cons r xs)
  obtain cs where cs: "\<And>acc. getChangedServices_loop rt prev xs acc = Inr (acc @ cs)"
    using getChangedServices_loop_acc[OF assms(1)] by blast
  obtain w where w: "get_prop rt prev (url r) = Inr w"
    using get_prop_total[OF assms(1)] by blast
  have IH: "\<And>acc. getChangedServices_loop rt prev (xs @ ys) acc = Inr (acc @ cs @ b)"
    using Cons.IH[of cs] cs[of "[]"] Cons.prems(2) by simp
  from Cons.prems(1) show ?case
    by (simp add: w cs IH Let_def del: get_prop.simps split: if_splits)
qed

lemma detectChanges_total: "prev \<noteq> JNull \<Longrightarrow> \<exists>cs. detectChanges rt rs prev = Inr cs"
  using detectChanges_loop_acc[of prev rt rs] by (auto simp: detectChanges_def)

lemma getChangedServices_total:
  "prev \<noteq> JNull \<Longrightarrow> \<exists>cs. getChangedServices rt rs prev = Inr cs"
  using getChangedServices_loop_acc[of prev rt rs] by (auto simp: getChangedServices_def)

lemma hasChanges_total: "prev \<noteq> JNull \<Longrightarrow> \<exists>b. hasChanges rt rs prev = Inr b"
proof (induction rs)
  case Nil
  show ?case by (intro exI[of _ False]) simp
next
  case (Cons r rs)
  obtain w where w: "get_prop rt prev (url r) = Inr w"
    using get_prop_total[OF Cons.prems] by blast
  obtain b0 where b0: "hasChanges rt rs prev = Inr b0"
    using Cons by blast
  show ?case by (auto simp add: w b0 Let_def simp del: get_prop.simps)
qed

text \<open>
  The transitions of a list of outcomes are those of the outcomes before \<open>r\<close>, then
  those of \<open>r\<close> alone, then those of the outcomes after \<open>r\<close>.
\<close>

lemma detectChanges_split:
  assumes "prev \<noteq> JNull" and "detectChanges rt [r] prev = Inr c"
  shows "\<exists>a b. detectChanges rt xs prev = Inr a \<and> detectChanges rt ys prev = Inr b
          \<and> detectChanges rt (xs @ r # ys) prev = Inr (a @ c @ b)"
proof -
  obtain a where a: "detectChanges rt xs prev = Inr a"
    using detectChanges_total[OF assms(1)] by blast
  obtain b where b: "detectChanges rt ys prev = Inr b"
    using detectChanges_total[OF assms(1)] by blast
  have "detectChanges_loop rt prev ([r] @ ys) [] = Inr ([] @ c @ b)"
    using assms b unfolding detectChanges_def by (intro detectChanges_loop_append)
  then have "detectChanges_loop rt prev (xs @ (r # ys)) [] = Inr ([] @ a @ (c @ b))"
    using a assms(1) unfolding detectChanges_def by (intro detectChanges_loop_append) simp_all
  then show ?thesis using a b by (simp add: detectChanges_def)
qed

lemma getChangedServices_split:
  assumes "prev \<noteq> JNull" and "getChangedServices rt [r] prev = Inr c"
  shows "\<exists>a b. getChangedServices rt xs prev = Inr a \<and> getChangedServices rt ys prev = Inr b
          \<and> getChangedServices rt (xs @ r # ys) prev = Inr (a @ c @ b)"
proof -
  obtain a where a: "getChangedServices rt xs prev = Inr a"
    using getChangedServices_total[OF assms(1)] by blast
  obtain b where b: "getChangedServices rt ys prev = Inr b"
    using getChangedServices_total[OF assms(1)] by blast
  have "getChangedServices_loop rt prev ([r] @ ys) [] = Inr ([] @ c @ b)"
    using assms b unfolding getChangedServices_def by (intro getChangedServices_loop_append)
  then have "getChangedServices_loop rt prev (xs @ (r # ys)) [] = Inr ([] @ a @ (c @ b))"
    using a assms(1) unfolding getChangedServices_def
    by (intro getChangedServices_loop_append) simp_all
  then show ?thesis using a b by (simp add: getChangedServices_def)
qed

text \<open>\<open>detectChanges\<close> never pushes a change of type \<open>down\<close>.\<close>

lemma detectChanges_loop_types:
  "detectChanges_loop rt prev rs acc = Inr cs \<Longrightarrow> \<forall>c\<in>set acc. type c \<noteq> down
   \<Longrightarrow> \<forall>c\<in>set cs. type c \<noteq> down"
proof (induction rs arbitrary: acc)
  case Nil
  then show ?case by simp
next
  case (Cons r rs)
  show ?case
  proof (cases "get_prop rt prev (url r)")
    case (Inl e)
    with Cons.prems show ?thesis by (simp del: get_prop.simps)
  next
    case (Inr w)
    with Cons.prems show ?thesis
      by (auto simp add: Let_def simp del: get_prop.simps split: if_splits
               dest!: Cons.IH)
  qed
qed

lemma url_not_inherited:
  "\<not> node_prototypes v (str ''https://a.example'')"
  by (cases v)
     (simp_all add: node_prototypes_def object_prototype_keys_def array_prototype_keys_def
        string_prototype_keys_def number_prototype_keys_def boolean_prototype_keys_def
        str_def)

text \<open>
  Claim C1, as amended. Let the URL of an outcome \<open>r\<close> be neither an own property of
  the previous state nor a name the prototype chain answers, so that the read gives
  \<open>undefined\<close>. Then in \<open>detectChanges\<close> the outcome contributes, at its place in the
  order of the outcomes, nothing when it is up and exactly one \<open>initial_down\<close> change
  when it is down; in \<open>getChangedServices\<close> it contributes nothing, up or down.
\<close>

theorem first_sight_transitions:
  assumes "map_of kvs (url r) = None" and "\<not> rt (JObj kvs) (url r)"
  shows "(\<exists>before after. detectChanges rt xs (JObj kvs) = Inr before
            \<and> detectChanges rt ys (JObj kvs) = Inr after
            \<and> detectChanges rt (xs @ r # ys) (JObj kvs) =
                Inr (before
                     @ (if up r then [] else [\<lparr>type = initial_down, result = r\<rparr>])
                     @ after))
       \<and> (\<exists>before after. getChangedServices rt xs (JObj kvs) = Inr before
            \<and> getChangedServices rt ys (JObj kvs) = Inr after
            \<and> getChangedServices rt (xs @ r # ys) (JObj kvs) = Inr (before @ after))"
proof -
  have g: "get_prop rt (JObj kvs) (url r) = Inr Undefined"
    using assms by (rule get_prop_obj_absent)
  have d: "detectChanges rt [r] (JObj kvs) =
             Inr (if up r then [] else [\<lparr>type = initial_down, result = r\<rparr>])"
    by (simp add: detectChanges_def g del: get_prop.simps)
  have c: "getChangedServices rt [r] (JObj kvs) = Inr []"
    by (simp add: getChangedServices_def g del: get_prop.simps)
  show ?thesis
    using detectChanges_split[OF _ d, of xs ys] getChangedServices_split[OF _ c, of xs ys]
    by simp
qed

theorem first_sight_transitions_witness:
  "map_of [(str ''https://b.example'', JBool True)] (url example_down) = None
   \<and> \<not> node_prototypes (JObj [(str ''https://b.example'', JBool True)]) (url example_down)
   \<and> detectChanges node_prototypes [example_down] (JObj [(str ''https://b.example'', JBool True)])
       = Inr [\<lparr>type = initial_down, result = example_down\<rparr>]
   \<and> getChangedServices node_prototypes [example_down]
        (JObj [(str ''https://b.example'', JBool True)]) = Inr []"
proof -
  have m: "map_of [(str ''https://b.example'', JBool True)] (url example_down) = None"
    by (simp add: example_down_def str_def)
  have n: "\<not> node_prototypes (JObj [(str ''https://b.example'', JBool True)]) (url example_down)"
    using url_not_inherited by (simp add: example_down_def)
  have u: "\<not> up example_down" by (simp add: example_down_def)
  have e: "detectChanges node_prototypes [] (JObj [(str ''https://b.example'', JBool True)]) = Inr []"
    "getChangedServices node_prototypes [] (JObj [(str ''https://b.example'', JBool True)]) = Inr []"
    by (simp_all add: detectChanges_def getChangedServices_def)
  show ?thesis
    using first_sight_transitions[where kvs = "[(str ''https://b.example'', JBool True)]"
        and r = example_down and rt = node_prototypes and xs = "[]" and ys = "[]"] m n u
    by (simp add: e)
qed

text \<open>
  The claim as it was stated fails for \<open>getChangedServices\<close>, which skips a service it
  sees for the first time although it is down; and for \<open>detectChanges\<close> when the URL
  is a name found on \<open>Object.prototype\<close>: the read does not give \<open>undefined\<close>, and the
  outcome counts as one that went down.
\<close>

theorem first_sight_counterexample:
  "map_of [] (url example_down) = None \<and> \<not> up example_down
   \<and> getChangedServices node_prototypes [example_down] (JObj []) = Inr []
   \<and> detectChanges node_prototypes [example_down\<lparr>url := str ''constructor''\<rparr>] (JObj [])
       = Inr [\<lparr>type = went_down, result = example_down\<lparr>url := str ''constructor''\<rparr>\<rparr>]"
proof -
  have a: "get_prop node_prototypes (JObj []) (str ''https://a.example'') = Inr Undefined"
    using url_not_inherited by (simp add: proto_lookup_def)
  have b: "get_prop node_prototypes (JObj []) (str ''constructor'') = Inr Builtin"
    by (simp add: proto_lookup_def node_prototypes_def object_prototype_keys_def)
  show ?thesis
    by (simp add: getChangedServices_def detectChanges_def a b example_down_def
             del: get_prop.simps)
qed

text \<open>
  Claim C2. Let the URL of an outcome \<open>r\<close> be an own property of the previous state
  whose value is the boolean \<open>b\<close>. Then in both detectors the outcome contributes, at
  its place in the order of the outcomes, exactly one change when \<open>b\<close> is true and
  the outcome is down (\<open>went_down\<close>, called \<open>down\<close> by \<open>getChangedServices\<close>), exactly
  one \<open>recovered\<close> change when \<open>b\<close> is false and the outcome is up, and nothing when
  \<open>b\<close> is the outcome's \<open>up\<close>.
\<close>

theorem known_service_transitions:
  assumes "map_of kvs (url r) = Some (JBool b)"
  shows "(\<exists>before after. detectChanges rt xs (JObj kvs) = Inr before
            \<and> detectChanges rt ys (JObj kvs) = Inr after
            \<and> detectChanges rt (xs @ r # ys) (JObj kvs) =
                Inr (before
                     @ (if b \<and> \<not> up r then [\<lparr>type = went_down, result = r\<rparr>]
                        else if \<not> b \<and> up r then [\<lparr>type = recovered, result = r\<rparr>]
                        else [])
                     @ after))
       \<and> (\<exists>before after. getChangedServices rt xs (JObj kvs) = Inr before
            \<and> getChangedServices rt ys (JObj kvs) = Inr after
            \<and> getChangedServices rt (xs @ r # ys) (JObj kvs) =
                Inr (before
                     @ (if b \<and> \<not> up r
                        then [outcome.extend r
                                \<lparr>previousState = Val (JBool True), changeType = down\<rparr>]
                        else if \<not> b \<and> up r
                        then [outcome.extend r
                                \<lparr>previousState = Val (JBool False), changeType = recovered\<rparr>]
                        else [])
                     @ after))"
proof -
  have g: "get_prop rt (JObj kvs) (url r) = Inr (Val (JBool b))"
    using assms by (rule get_prop_obj_own)
  have d: "detectChanges rt [r] (JObj kvs) =
             Inr (if b \<and> \<not> up r then [\<lparr>type = went_down, result = r\<rparr>]
                  else if \<not> b \<and> up r then [\<lparr>type = recovered, result = r\<rparr>]
                  else [])"
    by (auto simp add: detectChanges_def g simp del: get_prop.simps)
  have c: "getChangedServices rt [r] (JObj kvs) =
             Inr (if b \<and> \<not> up r
                  then [outcome.extend r
                          \<lparr>previousState = Val (JBool True), changeType = down\<rparr>]
                  else if \<not> b \<and> up r
                  then [outcome.extend r
                          \<lparr>previousState = Val (JBool False), changeType = recovered\<rparr>]
                  else [])"
    by (auto simp add: getChangedServices_def g simp del: get_prop.simps)
  show ?thesis
    using detectChanges_split[OF _ d, of xs ys] getChangedServices_split[OF _ c, of xs ys]
    by simp
qed

theorem known_service_transitions_witness:
  "map_of [(str ''https://a.example'', JBool True)] (url example_down) = Some (JBool True)
   \<and> detectChanges node_prototypes [example_up\<lparr>url := str ''https://b.example''\<rparr>, example_down]
        (JObj [(str ''https://a.example'', JBool True)])
       = Inr [\<lparr>type = went_down, result = example_down\<rparr>]
   \<and> getChangedServices node_prototypes [example_up\<lparr>url := str ''https://b.example''\<rparr>, example_down]
        (JObj [(str ''https://a.example'', JBool True)])
       = Inr [outcome.extend example_down
                \<lparr>previousState = Val (JBool True), changeType = down\<rparr>]"
proof -
  let ?kvs = "[(str ''https://a.example'', JBool True)]"
  let ?x = "example_up\<lparr>url := str ''https://b.example''\<rparr>"
  have m: "map_of ?kvs (url example_down) = Some (JBool True)"
    by (simp add: example_down_def)
  have u: "\<not> up example_down" by (simp add: example_down_def)
  have g: "get_prop node_prototypes (JObj ?kvs) (str ''https://b.example'') = Inr Undefined"
    by (simp add: proto_lookup_def str_def node_prototypes_def object_prototype_keys_def)
  have e: "detectChanges node_prototypes [?x] (JObj ?kvs) = Inr []"
    "getChangedServices node_prototypes [?x] (JObj ?kvs) = Inr []"
    "detectChanges node_prototypes [] (JObj ?kvs) = Inr []"
    "getChangedServices node_prototypes [] (JObj ?kvs) = Inr []"
    by (simp_all add: detectChanges_def getChangedServices_def g example_up_def
                 del: get_prop.simps)
  show ?thesis
    using known_service_transitions[where kvs = ?kvs and r = example_down and b = True
        and rt = node_prototypes and xs = "[?x]" and ys = "[]"] m u
    by (simp add: e)
qed

section \<open>The state store: proofs\<close>

subsection \<open>Escapes\<close>

lemma unat_small: "n < 65536 \<Longrightarrow> unat (of_nat n :: 16 word) = n"
  by (simp add: unat_of_nat)

lemma hexval_hexdigit: "d < 16 \<Longrightarrow> hexval (hexdigit d) = Some d"
proof -
  assume d: "d < 16"
  have u: "unat (of_nat (48 + d) :: 16 word) = 48 + d" "unat (of_nat (87 + d) :: 16 word) = 87 + d"
    using d by (simp_all only: unat_small)
  show ?thesis
    using d unfolding hexval_def hexdigit_def word_le_nat_alt
    by (simp only: u split: if_splits) auto
qed

lemma hex_sum:
  "4096 * (n div 4096) + 256 * (n div 256 mod 16) + 16 * (n div 16 mod 16) + n mod 16 = (n::nat)"
proof -
  have e1: "n div 256 = n div 16 div 16" using div_mult2_eq[of n 16 16] by simp
  have e2: "n div 4096 = n div 256 div 16" using div_mult2_eq[of n 256 16] by simp
  have a: "n = 16 * (n div 16) + n mod 16" by simp
  have b: "n div 16 = 16 * (n div 256) + n div 16 mod 16"
    unfolding e1 by simp
  have c: "n div 256 = 16 * (n div 4096) + n div 256 mod 16"
    unfolding e2 by simp
  define q3 where "q3 = n div 4096"
  define r2 where "r2 = n div 256 mod 16"
  define r1 where "r1 = n div 16 mod 16"
  define r0 where "r0 = n mod 16"
  define q2 where "q2 = n div 256"
  define q1 where "q1 = n div 16"
  have "n = 16 * q1 + r0" "q1 = 16 * q2 + r1" "q2 = 16 * q3 + r2"
    using a b c unfolding q3_def r2_def r1_def r0_def q2_def q1_def by blast+
  then have "4096 * q3 + 256 * r2 + 16 * r1 + r0 = n" by simp
  then show ?thesis unfolding q3_def r2_def r1_def r0_def .
qed

lemma parse_hex4_hex4:
  assumes "hex4 c = [h1, h2, h3, h4]"
  shows "parse_hex4 h1 h2 h3 h4 = Some c"
proof -
  have lt: "unat c < 65536" using unsigned_less[of c, where 'a=nat] by simp
  then have a: "unat c div 4096 < 16" by simp
  have "hexval h1 = Some (unat c div 4096)" "hexval h2 = Some (unat c div 256 mod 16)"
    "hexval h3 = Some (unat c div 16 mod 16)" "hexval h4 = Some (unat c mod 16)"
    using assms a by (auto simp: hex4_def hexval_hexdigit)
  then show ?thesis by (simp only: parse_hex4_def hex_sum prod.case option.case of_nat_unat) simp
qed

lemma parse_chars_unicode_escape:
  "parse_chars (unicode_escape c @ rest) = map_option (apfst ((#) c)) (parse_chars rest)"
proof -
  obtain h1 h2 h3 h4 where h: "hex4 c = [h1, h2, h3, h4]" by (simp add: hex4_def)
  show ?thesis
    by (simp add: unicode_escape_def h parse_hex4_hex4[OF h])
qed

lemma parse_chars_literal:
  "c \<noteq> 0x22 \<Longrightarrow> c \<noteq> 0x5C \<Longrightarrow> \<not> c < 0x20 \<Longrightarrow>
   parse_chars (c # rest) = map_option (apfst ((#) c)) (parse_chars rest)"
  by simp

lemma parse_chars_quote_unit:
  "parse_chars (quote_unit c @ rest) = map_option (apfst ((#) c)) (parse_chars rest)"
  by (simp add: quote_unit_def parse_chars_unicode_escape simple_escape_def)

lemma surrogate_literal:
  assumes "is_high_surrogate c \<or> is_low_surrogate c"
  shows "c \<noteq> 0x22" "c \<noteq> 0x5C" "\<not> c < 0x20"
  using assms
  by (auto simp: is_high_surrogate_def is_low_surrogate_def word_le_nat_alt word_less_nat_alt)

lemma parse_chars_quote_body:
  "parse_chars (quote_body s @ 0x22 # rest) = Some (s, rest)"
proof (induction s rule: quote_body.induct)
  case 1
  show ?case by simp
next
  case (2 c)
  show ?case
    by (simp add: parse_chars_unicode_escape parse_chars_quote_unit del: parse_chars.simps)
       (simp)
next
  case (3 c d cs)
  show ?case
  proof (cases "is_high_surrogate c")
    case hc: True
    show ?thesis
    proof (cases "is_low_surrogate d")
      case ld: True
      have "parse_chars (c # d # quote_body cs @ 0x22 # rest) = Some (c # d # cs, rest)"
        using surrogate_literal[of c] surrogate_literal[of d] hc ld "3.IH"(1)
        by (simp del: quote_body.simps)
      then show ?thesis using hc ld by simp
    next
      case False
      then show ?thesis using hc "3.IH"(2)
        by (simp add: parse_chars_unicode_escape del: parse_chars.simps)
    qed
  next
    case nh: False
    show ?thesis
    proof (cases "is_low_surrogate c")
      case True
      then show ?thesis using nh "3.IH"(3)
        by (simp add: parse_chars_unicode_escape del: parse_chars.simps)
    next
      case False
      then show ?thesis using nh "3.IH"(4)
        by (simp add: parse_chars_quote_unit del: parse_chars.simps)
    qed
  qed
qed

subsection \<open>The text of a state parses to the state\<close>

lemma skip_ws_Cons: "skip_ws (c # cs) = (if is_ws c then skip_ws cs else c # cs)"
  by (simp add: skip_ws_def)

lemma skip_ws_Nil: "skip_ws [] = []"
  by (simp add: skip_ws_def)

lemma parse_value_bool:
  "parse_value (Suc j) (stringify_bool b @ rest) = Some (JBool b, rest)"
  by (simp add: stringify_bool_def str_def parse_literal_def is_digit_def)

lemma skip_ws_bool: "skip_ws (stringify_bool b @ Y) = stringify_bool b @ Y"
  by (simp add: stringify_bool_def str_def skip_ws_Cons is_ws_def)

lemma parse_member_step:
  "parse_members (Suc (Suc j)) acc (skip_ws (stringify_member (k, b) @ Y)) =
     (case skip_ws Y of
        [] \<Rightarrow> None
      | d # ds \<Rightarrow>
          if d = 0x2C then parse_members (Suc j) (define_own acc k (JBool b)) (skip_ws ds)
          else if d = 0x7D then Some (JObj (define_own acc k (JBool b)), ds)
          else None)"
proof -
  have t: "skip_ws (stringify_member (k, b) @ Y)
            = 0x22 # (quote_body k @ 0x22 # (0x3A # 0x20 # (stringify_bool b @ Y)))"
    by (simp add: stringify_member_def str_def quote_def skip_ws_Cons is_ws_def)
  show ?thesis
    unfolding t
    by (simp add: parse_chars_quote_body skip_ws_Cons is_ws_def parse_value_bool skip_ws_bool
             del: parse_value.simps parse_chars.simps)
qed

lemma parse_members_join:
  assumes "st \<noteq> []" and "length st < n"
  shows "parse_members n acc
           (skip_ws (join [0x2C, 0x0A] (map stringify_member st) @ [0x0A, 0x7D] @ rest))
         = Some (JObj (state_object acc st), rest)"
  using assms
proof (induction st arbitrary: n acc)
  case Nil
  then show ?case by simp
next
  case (Cons kv st)
  obtain k b where kv: "kv = (k, b)" by (cases kv)
  from Cons.prems(2) obtain j where n: "n = Suc (Suc j)" "length st \<le> j"
    by (cases n; cases "n - 1") auto
  show ?case
  proof (cases st)
    case Nil
    then show ?thesis
      unfolding n kv
      by (simp add: parse_member_step skip_ws_Cons is_ws_def state_object_def
               del: parse_members.simps)
  next
    case (Cons kv' st')
    have IH: "parse_members (Suc j) (define_own acc k (JBool b))
           (skip_ws (join [0x2C, 0x0A] (map stringify_member st) @ [0x0A, 0x7D] @ rest))
         = Some (JObj (state_object (define_own acc k (JBool b)) st), rest)"
      using Cons n(2) by (intro Cons.IH) auto
    have j: "join [0x2C, 0x0A] (map stringify_member (kv # st)) @ [0x0A, 0x7D] @ rest
        = stringify_member (k, b) @ (0x2C # 0x0A # (join [0x2C, 0x0A] (map stringify_member st) @ [0x0A, 0x7D] @ rest))"
      using Cons by (simp add: kv)
    show ?thesis
      unfolding n j using IH
      by (simp add: parse_member_step skip_ws_Cons is_ws_def state_object_def kv
               del: parse_members.simps)
  qed
qed

lemma length_join_ge: "length xs \<le> length (join sep (map stringify_member xs)) "
proof (induction xs rule: induct_list012)
  case (3 x y zs)
  then show ?case by (simp add: stringify_member_def str_def)
qed (simp_all add: stringify_member_def str_def)

lemma parse_value_state:
  assumes "st \<noteq> []" and "length st < n"
  shows "parse_value (Suc n) (stringify_state st) = Some (JObj (state_object [] st), [])"
proof -
  define X where "X = join [0x2C, 0x0A] (map stringify_member st) @ [0x0A, 0x7D] @ []"
  have t: "stringify_state st = 0x7B # 0x0A # X"
    using assms(1) by (simp add: stringify_state_def X_def)
  obtain kv st' where st: "st = kv # st'" using assms(1) by (cases st) auto
  have "\<exists>ds. skip_ws X = 0x22 # ds"
    unfolding X_def st
    by (cases st') (simp_all add: stringify_member_def str_def skip_ws_Cons is_ws_def quote_def)
  then obtain ds where d: "skip_ws X = 0x22 # ds"
    by blast
  have pm: "parse_members n [] (skip_ws X) = Some (JObj (state_object [] st), [])"
    unfolding X_def using assms by (rule parse_members_join)
  have "parse_value (Suc n) (0x7B # 0x0A # X) =
          (case skip_ws X of
             [] \<Rightarrow> None
           | d # ds \<Rightarrow> if d = 0x7D then Some (JObj [], ds) else parse_members n [] (d # ds))"
    by (simp add: skip_ws_Cons is_ws_def)
  also have "\<dots> = parse_members n [] (skip_ws X)"
    by (simp add: d)
  finally show ?thesis using pm t by simp
qed

lemma json_parse_stringify_state:
  "json_parse (stringify_state st) = Some (JObj (state_object [] st))"
proof (cases "st = []")
  case True
  have "json_parse (stringify_state []) = Some (JObj (state_object [] []))"
    by code_simp
  then show ?thesis using True by simp
next
  case False
  have len: "length st < 2 * length (stringify_state st) + 1"
    using length_join_ge[of st "[0x2C, 0x0A]"] False by (simp add: stringify_state_def)
  have sk: "skip_ws (stringify_state st) = stringify_state st"
    using False by (simp add: stringify_state_def skip_ws_Cons is_ws_def)
  have fuel: "2 * length (stringify_state st) + 2 = Suc (2 * length (stringify_state st) + 1)"
    by simp
  show ?thesis
    unfolding json_parse_def sk fuel parse_value_state[OF False len]
    by (simp add: skip_ws_Nil)
qed

subsection \<open>The properties of the parsed state\<close>

lemma map_of_overwrite:
  "map_of (overwrite k v kvs) x = (if x = k \<and> k \<in> fst ` set kvs then Some v else map_of kvs x)"
  by (induction kvs) (auto simp: rev_image_eqI)

lemma map_of_insert_index:
  "k \<notin> fst ` set kvs \<Longrightarrow>
   map_of (insert_index i k v kvs) x = (if x = k then Some v else map_of kvs x)"
proof (induction kvs)
  case Nil
  show ?case by simp
next
  case (Cons a kvs)
  then show ?case
    by (cases a) (auto split: option.splits)
qed

lemma map_of_append_new:
  "k \<notin> fst ` set kvs \<Longrightarrow> map_of (kvs @ [(k, v)]) x = (if x = k then Some v else map_of kvs x)"
  by (induction kvs) auto

lemma map_of_define_own: "map_of (define_own kvs k v) x = (if x = k then Some v else map_of kvs x)"
proof (cases "k \<in> fst ` set kvs")
  case True
  then show ?thesis by (simp add: define_own_def map_of_overwrite)
next
  case False
  then show ?thesis
    by (cases "index_of k")
       (simp_all add: define_own_def map_of_insert_index map_of_append_new del: map_of_append)
qed

lemma map_of_state_object:
  "distinct (map fst st) \<Longrightarrow>
   map_of (state_object acc st) k =
     (case map_of st k of Some b \<Rightarrow> Some (JBool b) | None \<Rightarrow> map_of acc k)"
proof (induction st arbitrary: acc)
  case Nil
  show ?case by (simp add: state_object_def)
next
  case (Cons kv st)
  have so: "state_object acc (kv # st) = state_object (define_own acc (fst kv) (JBool (snd kv))) st"
    by (simp add: state_object_def)
  have nk: "map_of st (fst kv) = None"
    using Cons.prems by (simp add: map_of_eq_None_iff)
  have IH: "map_of (state_object (define_own acc (fst kv) (JBool (snd kv))) st) k =
     (case map_of st k of Some b \<Rightarrow> Some (JBool b)
      | None \<Rightarrow> map_of (define_own acc (fst kv) (JBool (snd kv))) k)"
    using Cons.prems by (intro Cons.IH) simp
  show ?case
    unfolding so IH using nk
    by (cases kv) (auto simp: map_of_define_own split: option.splits)
qed

lemma map_of_state_object_distinct:
  "distinct (map fst st) \<Longrightarrow>
   map_of (state_object [] st) k = map_option JBool (map_of st k)"
  by (simp add: map_of_state_object split: option.splits)

subsection \<open>The bound on the depth of the calls is never reached\<close>

lemma length_skip_ws: "length (skip_ws t) \<le> length t"
  by (simp add: skip_ws_def length_dropWhile_le)

lemma parse_chars_shorter: "parse_chars cs = Some (k, rest) \<Longrightarrow> length rest < length cs"
proof (induction cs arbitrary: k rest rule: parse_chars.induct)
  case 1
  then show ?case by simp
next
  case (2 c cs)
  show ?case
  proof (cases "c = 0x22")
    case True
    with "2.prems" show ?thesis by simp
  next
    case nq: False
    show ?thesis
    proof (cases "c = 0x5C")
      case False
      with nq "2.prems" obtain k' where "parse_chars cs = Some (k', rest)"
        by (auto split: if_splits)
      then have "length rest < length cs" using "2.IH"(3) nq False
        by (cases "c < 0x20") (use "2.prems" nq False in \<open>auto split: if_splits\<close>)
      then show ?thesis by simp
    next
      case bs: True
      show ?thesis
      proof (cases cs)
        case Nil
        with "2.prems" nq bs show ?thesis by simp
      next
        case (Cons e es)
        show ?thesis
        proof (cases "e = 0x75")
          case True
          with "2.prems" nq bs Cons obtain h1 h2 h3 h4 r u k'
            where es: "es = h1 # h2 # h3 # h4 # r"
              and u: "parse_hex4 h1 h2 h3 h4 = Some u"
              and k': "parse_chars r = Some (k', rest)"
            by (auto split: list.splits option.splits)
          have "length rest < length r"
            using "2.IH"(1)[OF nq bs Cons True es _ _ _ u k'] by simp
          then show ?thesis using Cons es by simp
        next
          case False
          with "2.prems" nq bs Cons obtain u k'
            where u: "simple_escape e = Some u"
              and k': "parse_chars es = Some (k', rest)"
            by (auto split: option.splits)
          have "length rest < length es"
            using "2.IH"(2)[OF nq bs Cons False u k'] .
          then show ?thesis using Cons by simp
        qed
      qed
    qed
  qed
qed

lemma parse_digits_shorter:
  "parse_digits t = Some (x, rest) \<Longrightarrow> length rest < length t"
proof -
  assume a: "parse_digits t = Some (x, rest)"
  then have "takeWhile is_digit t \<noteq> []" "rest = dropWhile is_digit t"
    by (auto simp: parse_digits_def split: if_splits)
  moreover have "length (takeWhile is_digit t) + length (dropWhile is_digit t) = length t"
    by (metis length_append takeWhile_dropWhile_id)
  ultimately show ?thesis by (cases "takeWhile is_digit t") auto
qed

lemma parse_int_part_shorter:
  "parse_int_part t = Some (x, rest) \<Longrightarrow> length rest < length t"
  by (auto simp: parse_int_part_def split: list.splits if_splits dest: parse_digits_shorter)

lemma parse_fraction_le:
  "parse_fraction t = Some (x, rest) \<Longrightarrow> length rest \<le> length t"
  by (auto simp: parse_fraction_def split: list.splits if_splits
           dest!: parse_digits_shorter)

lemma parse_exponent_le:
  "parse_exponent t = Some (x, rest) \<Longrightarrow> length rest \<le> length t"
  by (auto simp: parse_exponent_def split: list.splits if_splits
           dest!: parse_digits_shorter)

lemma parse_number_shorter:
  "parse_number t = Some (x, rest) \<Longrightarrow> length rest < length t"
proof -
  assume a: "parse_number t = Some (x, rest)"
  define t1 where "t1 = (case t of [] \<Rightarrow> t | c # cs \<Rightarrow> if c = 0x2D then cs else t)"
  have t1: "length t1 \<le> length t" by (auto simp: t1_def split: list.splits)
  from a obtain ip t2 fp t3 ep where
    "parse_int_part t1 = Some (ip, t2)" "parse_fraction t2 = Some (fp, t3)"
    "parse_exponent t3 = Some (ep, rest)"
    by (auto simp: parse_number_def t1_def Let_def split: list.splits if_splits option.splits)
  then have "length t2 < length t1" "length t3 \<le> length t2" "length rest \<le> length t3"
    by (auto dest: parse_int_part_shorter parse_fraction_le parse_exponent_le)
  then show ?thesis using t1 by simp
qed

lemma parse_literal_shorter:
  "parse_literal t = Some (v, rest) \<Longrightarrow> length rest < length t"
proof -
  assume a: "parse_literal t = Some (v, rest)"
  then have "t \<noteq> []"
    by (auto simp: parse_literal_def str_def split: if_splits)
  then have "0 < length t" by simp
  with a show ?thesis
    by (auto simp: parse_literal_def split: if_splits)
qed

lemma parse_shorter:
  "(\<forall>t v rest. parse_value n t = Some (v, rest) \<longrightarrow> length rest < length t)
   \<and> (\<forall>t acc v rest. parse_elements n acc t = Some (v, rest) \<longrightarrow> length rest < length t)
   \<and> (\<forall>t acc v rest. parse_members n acc t = Some (v, rest) \<longrightarrow> length rest < length t)"
proof (induction n)
  case 0
  show ?case by simp
next
  case (Suc n)
  then have IHv: "\<And>t v rest. parse_value n t = Some (v, rest) \<Longrightarrow> length rest < length t"
    and IHe: "\<And>t acc v rest. parse_elements n acc t = Some (v, rest) \<Longrightarrow> length rest < length t"
    and IHm: "\<And>t acc v rest. parse_members n acc t = Some (v, rest) \<Longrightarrow> length rest < length t"
    by blast+
  have sk: "\<And>t d ds. skip_ws t = d # ds \<Longrightarrow> length ds < length t"
    using length_skip_ws by (metis length_Cons less_eq_Suc_le)
  have sk': "\<And>t. length (skip_ws t) \<le> length t" by (rule length_skip_ws)
  have v: "length rest < length t" if "parse_value (Suc n) t = Some (v, rest)" for t v rest
  proof (cases t)
    case Nil
    with that show ?thesis by simp
  next
    case (Cons c cs)
    consider (obj) "c = 0x7B" | (arr) "c \<noteq> 0x7B" "c = 0x5B" | (str) "c \<noteq> 0x7B" "c \<noteq> 0x5B" "c = 0x22"
      | (num) "c \<noteq> 0x7B" "c \<noteq> 0x5B" "c \<noteq> 0x22" "c = 0x2D \<or> is_digit c"
      | (lit) "c \<noteq> 0x7B" "c \<noteq> 0x5B" "c \<noteq> 0x22" "\<not> (c = 0x2D \<or> is_digit c)"
      by blast
    then show ?thesis
    proof cases
      case obj
      with that Cons obtain d ds where d: "skip_ws cs = d # ds"
        by (auto split: list.splits)
      show ?thesis
      proof (cases "d = 0x7D")
        case True
        with that Cons obj d have "rest = ds" by simp
        then show ?thesis using sk[OF d] Cons by simp
      next
        case False
        with that Cons obj d have "parse_members n [] (d # ds) = Some (v, rest)" by simp
        then have "length rest < length (d # ds)" by (rule IHm)
        then show ?thesis using sk'[of cs] d Cons by simp
      qed
    next
      case arr
      with that Cons obtain d ds where d: "skip_ws cs = d # ds"
        by (auto split: list.splits)
      show ?thesis
      proof (cases "d = 0x5D")
        case True
        with that Cons arr d have "rest = ds" by simp
        then show ?thesis using sk[OF d] Cons by simp
      next
        case False
        with that Cons arr d have "parse_elements n [] (d # ds) = Some (v, rest)" by simp
        then have "length rest < length (d # ds)" by (rule IHe)
        then show ?thesis using sk'[of cs] d Cons by simp
      qed
    next
      case str
      with that Cons obtain k where "parse_chars cs = Some (k, rest)" by auto
      then show ?thesis using parse_chars_shorter Cons by fastforce
    next
      case num
      with that Cons obtain x where "parse_number t = Some (x, rest)" by auto
      then show ?thesis by (rule parse_number_shorter)
    next
      case lit
      with that Cons have "parse_literal t = Some (v, rest)" by auto
      then show ?thesis by (rule parse_literal_shorter)
    qed
  qed
  have e: "length rest < length t" if "parse_elements (Suc n) acc t = Some (v, rest)"
    for t acc v rest
  proof -
    from that obtain x r1 c cs where 1: "parse_value n t = Some (x, r1)"
      and 2: "skip_ws r1 = c # cs"
      and 3: "(c = 0x2C \<and> parse_elements n (acc @ [x]) (skip_ws cs) = Some (v, rest))
              \<or> (c = 0x5D \<and> rest = cs)"
      by (auto split: option.splits list.splits if_splits)
    have a: "length r1 < length t" using 1 by (rule IHv)
    have b: "length cs < length r1" using 2 by (rule sk)
    from 3 show ?thesis
    proof
      assume "c = 0x2C \<and> parse_elements n (acc @ [x]) (skip_ws cs) = Some (v, rest)"
      then have "length rest < length (skip_ws cs)" using IHe by blast
      then show ?thesis using a b sk'[of cs] by simp
    next
      assume "c = 0x5D \<and> rest = cs"
      then show ?thesis using a b by simp
    qed
  qed
  have m: "length rest < length t" if "parse_members (Suc n) acc t = Some (v, rest)"
    for t acc v rest
  proof -
    from that obtain q cs k r0 c cs' x r1 d ds where t: "t = q # cs"
      and 0: "parse_chars cs = Some (k, r0)" "skip_ws r0 = c # cs'"
      and 1: "parse_value n (skip_ws cs') = Some (x, r1)"
      and 2: "skip_ws r1 = d # ds"
      and 3: "(d = 0x2C \<and> parse_members n (define_own acc k x) (skip_ws ds) = Some (v, rest))
              \<or> (d = 0x7D \<and> rest = ds)"
      by (auto split: option.splits list.splits if_splits)
    have a: "length r0 < length cs" using 0(1) by (rule parse_chars_shorter)
    have b: "length cs' < length r0" using 0(2) by (rule sk)
    have c: "length r1 < length (skip_ws cs')" using 1 by (rule IHv)
    have d: "length ds < length r1" using 2 by (rule sk)
    from 3 show ?thesis
    proof
      assume "d = 0x2C \<and> parse_members n (define_own acc k x) (skip_ws ds) = Some (v, rest)"
      then have "length rest < length (skip_ws ds)" using IHm by blast
      then show ?thesis using a b c d sk'[of ds] sk'[of cs'] t by simp
    next
      assume "d = 0x7D \<and> rest = ds"
      then show ?thesis using a b c d sk'[of cs'] t by simp
    qed
  qed
  show ?case using v e m by blast
qed

lemma parse_value_shorter:
  "parse_value n t = Some (v, rest) \<Longrightarrow> length rest < length t"
  using parse_shorter by blast

lemma skip_ws_Cons_shorter: "skip_ws t = d # ds \<Longrightarrow> length ds < length t"
  using length_skip_ws[of t] by simp

text \<open>
  Beyond twice the length of the text, one more unit of depth changes nothing.
\<close>

lemma parse_depth_step:
  "(\<forall>t. 2 * length t < n \<longrightarrow> parse_value (Suc n) t = parse_value n t)
   \<and> (\<forall>t acc. 2 * length t + 1 < n \<longrightarrow>
         parse_elements (Suc n) acc t = parse_elements n acc t)
   \<and> (\<forall>t acc. 2 * length t + 1 < n \<longrightarrow>
         parse_members (Suc n) acc t = parse_members n acc t)"
proof (induction n)
  case 0
  show ?case by simp
next
  case (Suc n)
  then have IHv: "\<And>t. 2 * length t < n \<Longrightarrow> parse_value (Suc n) t = parse_value n t"
    and IHe: "\<And>t acc. 2 * length t + 1 < n \<Longrightarrow>
                parse_elements (Suc n) acc t = parse_elements n acc t"
    and IHm: "\<And>t acc. 2 * length t + 1 < n \<Longrightarrow>
                parse_members (Suc n) acc t = parse_members n acc t"
    by blast+
  note pv2 = parse_value.simps(2)[of "Suc n"] parse_value.simps(2)[of n]
  note pe2 = parse_elements.simps(2)[of "Suc n"] parse_elements.simps(2)[of n]
  note pm2 = parse_members.simps(2)[of "Suc n"] parse_members.simps(2)[of n]
  note parse_del = parse_value.simps parse_elements.simps parse_members.simps
  have v: "parse_value (Suc (Suc n)) t = parse_value (Suc n) t" if b: "2 * length t < Suc n" for t
  proof (cases t)
    case Nil
    then show ?thesis by (auto simp add: pv2 simp del: parse_del)
  next
    case (Cons c cs)
    show ?thesis
    proof (cases "skip_ws cs")
      case Nil
      then show ?thesis using Cons by (auto simp add: pv2 simp del: parse_del)
    next
      case sk: (Cons d ds)
      have "length (d # ds) \<le> length cs" using length_skip_ws[of cs] sk by simp
      then have "2 * length (d # ds) + 1 < n" using b Cons by simp
      then have "parse_members (Suc n) [] (d # ds) = parse_members n [] (d # ds)"
        "parse_elements (Suc n) [] (d # ds) = parse_elements n [] (d # ds)"
        using IHm IHe by blast+
      then show ?thesis using Cons sk by (auto simp add: pv2 simp del: parse_del)
    qed
  qed
  have e: "parse_elements (Suc (Suc n)) acc t = parse_elements (Suc n) acc t"
    if b: "2 * length t + 1 < Suc n" for t acc
  proof -
    have pv: "parse_value (Suc n) t = parse_value n t" using b by (intro IHv) simp
    show ?thesis
    proof (cases "parse_value n t")
      case None
      then show ?thesis using pv by (auto simp add: pe2 simp del: parse_del)
    next
      case (Some p)
      obtain x r1 where p: "p = (x, r1)" by (cases p)
      have r1: "length r1 < length t" using Some p parse_value_shorter by blast
      show ?thesis
      proof (cases "skip_ws r1")
        case Nil
        then show ?thesis using pv Some p by (auto simp add: pe2 simp del: parse_del)
      next
        case (Cons c cs)
        have "length (skip_ws cs) \<le> length cs" by (rule length_skip_ws)
        moreover have "length cs < length r1" using Cons by (rule skip_ws_Cons_shorter)
        ultimately have "2 * length (skip_ws cs) + 1 < n" using b r1 by simp
        then have "parse_elements (Suc n) (acc @ [x]) (skip_ws cs)
                     = parse_elements n (acc @ [x]) (skip_ws cs)"
          by (rule IHe)
        then show ?thesis using pv Some p Cons by (auto simp add: pe2 simp del: parse_del)
      qed
    qed
  qed
  have m: "parse_members (Suc (Suc n)) acc t = parse_members (Suc n) acc t"
    if b: "2 * length t + 1 < Suc n" for t acc
  proof (cases t)
    case Nil
    then show ?thesis by (auto simp add: pm2 simp del: parse_del)
  next
    case t: (Cons q cs)
    show ?thesis
    proof (cases "parse_chars cs")
      case None
      then show ?thesis using t by (auto simp add: pm2 simp del: parse_del)
    next
      case (Some p0)
      obtain k r0 where p0: "p0 = (k, r0)" by (cases p0)
      have r0: "length r0 < length cs" using Some p0 parse_chars_shorter by blast
      show ?thesis
      proof (cases "skip_ws r0")
        case Nil
        then show ?thesis using t Some p0 by (auto simp add: pm2 simp del: parse_del)
      next
        case c: (Cons c cs')
        have cs': "length (skip_ws cs') < length r0"
          using length_skip_ws[of cs'] skip_ws_Cons_shorter[OF c] by simp
        then have "2 * length (skip_ws cs') < n" using b r0 t by simp
        then have pv: "parse_value (Suc n) (skip_ws cs') = parse_value n (skip_ws cs')"
          by (rule IHv)
        show ?thesis
        proof (cases "parse_value n (skip_ws cs')")
          case None
          then show ?thesis using t Some p0 c pv by (auto simp add: pm2 simp del: parse_del)
        next
          case p: (Some p1)
          obtain x r1 where p1: "p1 = (x, r1)" by (cases p1)
          have r1: "length r1 < length (skip_ws cs')"
            using p p1 parse_value_shorter by blast
          show ?thesis
          proof (cases "skip_ws r1")
            case Nil
            then show ?thesis using t Some p0 c pv p p1 by (auto simp add: pm2 simp del: parse_del)
          next
            case d: (Cons d ds)
            have "length (skip_ws ds) < length r1"
              using length_skip_ws[of ds] skip_ws_Cons_shorter[OF d] by simp
            then have "2 * length (skip_ws ds) + 1 < n" using b r0 t cs' r1 by simp
            then have "parse_members (Suc n) (define_own acc k x) (skip_ws ds)
                     = parse_members n (define_own acc k x) (skip_ws ds)"
              by (rule IHm)
            then show ?thesis using t Some p0 c pv p p1 d by (auto simp add: pm2 simp del: parse_del)
          qed
        qed
      qed
    qed
  qed
  show ?case using v e m by blast
qed

lemma parse_value_depth:
  "2 * length t < n \<Longrightarrow> parse_value (n + k) t = parse_value n t"
proof (induction k)
  case 0
  show ?case by simp
next
  case (Suc k)
  have "2 * length t < n + k" using Suc.prems by simp
  then have "parse_value (Suc (n + k)) t = parse_value (n + k) t"
    using parse_depth_step by blast
  then show ?case using Suc by simp
qed

text \<open>
  So \<open>json_parse\<close> is the parser without a bound: any greater depth gives the same
  result.
\<close>

lemma json_parse_depth:
  "json_parse t =
     (case parse_value (2 * length t + 2 + k) (skip_ws t) of
        None \<Rightarrow> None
      | Some (v, rest) \<Rightarrow> if skip_ws rest = [] then Some v else None)"
proof -
  have "2 * length (skip_ws t) < 2 * length t + 2" using length_skip_ws[of t] by simp
  then have "parse_value (2 * length t + 2 + k) (skip_ws t)
               = parse_value (2 * length t + 2) (skip_ws t)"
    by (rule parse_value_depth)
  then show ?thesis by (simp add: json_parse_def)
qed

subsection \<open>Saving and loading\<close>

lemma savePreviousState_ok:
  "parent_exists d \<Longrightarrow> write_fault d = None \<Longrightarrow>
   savePreviousState d st = (d\<lparr>content := Some (stringify_state st)\<rparr>, [])"
  by (simp add: savePreviousState_def writeFileSync_def)

lemma savePreviousState_mkdir_ok:
  "parent_exists d \<or> mkdir_error d = None \<Longrightarrow> write_fault d = None \<Longrightarrow>
   savePreviousState_mkdir p d st =
     (d\<lparr>parent_exists := True, content := Some (stringify_state st)\<rparr>, [])"
  by (cases "parent_exists d")
     (simp_all add: savePreviousState_mkdir_def mkdirSync_def writeFileSync_def)

lemma loadPreviousState_written:
  "content d = Some (stringify_state st) \<Longrightarrow> read_error d = None \<Longrightarrow>
   loadPreviousState d = JObj (state_object [] st)"
  by (simp add: loadPreviousState_def readFileSync_def json_parse_stringify_state)

lemma loadPreviousState_unaffected:
  "content d' = content d \<Longrightarrow> read_error d' = read_error d \<Longrightarrow>
   loadPreviousState d' = loadPreviousState d"
  by (simp add: loadPreviousState_def readFileSync_def split: option.splits)

text \<open>
  Claim C8, as amended. Let \<open>st\<close> be a state object (its keys are distinct), and let the
  write and the read of the state file succeed: the directory of the file exists, and
  the operating system refuses neither the write nor the read. Then loading after
  saving returns an object whose properties are exactly those of \<open>st\<close>, each key with
  its boolean. This holds for both versions of \<open>savePreviousState\<close>.
\<close>

theorem save_load_roundtrip:
  assumes "distinct (map fst st)" and "parent_exists d"
    and "write_fault d = None" and "read_error d = None"
  shows "(\<exists>obj. loadPreviousState (fst (savePreviousState d st)) = JObj obj
            \<and> (\<forall>k. map_of obj k = map_option JBool (map_of st k)))
       \<and> (\<exists>obj. loadPreviousState (fst (savePreviousState_mkdir STATE_FILE d st)) = JObj obj
            \<and> (\<forall>k. map_of obj k = map_option JBool (map_of st k)))"
proof -
  have a: "loadPreviousState (fst (savePreviousState d st)) = JObj (state_object [] st)"
    using assms by (simp add: savePreviousState_ok loadPreviousState_written)
  have b: "loadPreviousState (fst (savePreviousState_mkdir STATE_FILE d st))
             = JObj (state_object [] st)"
    using assms by (simp add: savePreviousState_mkdir_ok loadPreviousState_written)
  show ?thesis
    using a b map_of_state_object_distinct[OF assms(1)] by simp
qed

theorem save_load_roundtrip_witness:
  "distinct (map fst [(str ''https://a.example'', True), (str ''https://b.example'', False)])
   \<and> parent_exists example_fs \<and> write_fault example_fs = None
   \<and> read_error example_fs = None
   \<and> (\<exists>obj. loadPreviousState
                (fst (savePreviousState example_fs
                        [(str ''https://a.example'', True), (str ''https://b.example'', False)]))
              = JObj obj
            \<and> map_of obj (str ''https://a.example'') = Some (JBool True)
            \<and> map_of obj (str ''https://b.example'') = Some (JBool False)
            \<and> map_of obj (str ''https://c.example'') = None)"
proof -
  let ?st = "[(str ''https://a.example'', True), (str ''https://b.example'', False)]"
  have d: "distinct (map fst ?st)" by (simp add: str_def)
  have f: "parent_exists example_fs" "write_fault example_fs = None"
    "read_error example_fs = None"
    by (simp_all add: example_fs_def)
  obtain obj where o: "loadPreviousState (fst (savePreviousState example_fs ?st)) = JObj obj"
    "\<forall>k. map_of obj k = map_option JBool (map_of ?st k)"
    using save_load_roundtrip[OF d f] by blast
  have "map_of obj (str ''https://a.example'') = Some (JBool True)"
    "map_of obj (str ''https://b.example'') = Some (JBool False)"
    "map_of obj (str ''https://c.example'') = None"
    by (simp_all add: o(2) str_def)
  then show ?thesis using d f o(1) by blast
qed

text \<open>
  The claim as it was stated, for every save, fails where the write or the read
  fails. \<open>savePreviousState\<close> catches the error of a write into a directory that does
  not exist, and loading then finds no file and returns the empty object, which lacks
  the key that was to be saved. And a file that was written but cannot be read loads
  as the empty object too.
\<close>

theorem save_load_counterexample:
  "map_of [(str ''https://a.example'', True)] (str ''https://a.example'') = Some True
   \<and> loadPreviousState
        (fst (savePreviousState (example_fs\<lparr>parent_exists := False\<rparr>)
                [(str ''https://a.example'', True)]))
       = JObj []
   \<and> loadPreviousState
        (fst (savePreviousState
                (example_fs\<lparr>read_error := Some example_eacces\<rparr>)
                [(str ''https://a.example'', True)]))
       = JObj []"
  by (simp add: savePreviousState_def writeFileSync_def loadPreviousState_def
      readFileSync_def example_fs_def)

subsection \<open>A failing write does not fail the run\<close>

lemma main_completion_write_fault:
  "completion (main env pf (d\<lparr>write_fault := w\<rparr>)) = completion (main env pf d)"
proof -
  have l: "loadPreviousState (d\<lparr>write_fault := w\<rparr>) = loadPreviousState d"
    by (rule loadPreviousState_unaffected) simp_all
  show ?thesis
    unfolding main_def l
    by (simp add: Let_def split_def split: option.splits sum.splits)
qed

lemma monitor_exit_write_fault:
  "snd (monitor env pf (d\<lparr>write_fault := w\<rparr>)) = snd (monitor env pf d)"
  unfolding monitor_def Let_def main_completion_write_fault
  by (simp add: split_def split: sum.splits)

text \<open>
  Claim C7, as amended. \<open>loadPreviousState\<close> catches every error: it returns the empty
  object when the file cannot be read and when its text does not parse, and it
  returns the object the text denotes when the text is a JSON object. The version
  of \<open>savePreviousState\<close> with \<open>mkdirSync\<close> creates a missing directory before it writes;
  the version of \<open>monitor.mjs\<close> does not. In both, the error of a write is caught: the
  warning is logged and the exit code of the run is the one it would have been. The
  file keeps its content when the failure is at the open of the file (its directory
  is missing, or the operating system refuses the open).
\<close>

theorem state_store_contract:
  "(\<forall>e. readFileSync d STATE_FILE = Inl e \<longrightarrow> loadPreviousState d = JObj [])
   \<and> (\<forall>t. readFileSync d STATE_FILE = Inr t \<and> json_parse t = None \<longrightarrow>
          loadPreviousState d = JObj [])
   \<and> (\<forall>t kvs. readFileSync d STATE_FILE = Inr t \<and> json_parse t = Some (JObj kvs) \<longrightarrow>
          loadPreviousState d = JObj kvs)
   \<and> (\<not> parent_exists d \<and> mkdir_error d = None \<and> write_fault d = None \<longrightarrow>
          savePreviousState_mkdir p d st =
            (d\<lparr>parent_exists := True, content := Some (stringify_state st)\<rparr>, []))
   \<and> (\<forall>e d'. writeFileSync d STATE_FILE (stringify_state st) = (Some e, d') \<longrightarrow>
          savePreviousState d st = (d', [save_warning e]))
   \<and> (\<forall>e d'. writeFileSync (case mkdirSync d of Inr d1 \<Rightarrow> d1 | Inl x \<Rightarrow> d) p
                (stringify_state st) = (Some e, d') \<longrightarrow>
          savePreviousState_mkdir p d st = (d', [save_warning e]))
   \<and> (\<not> parent_exists d \<or> (\<exists>m. write_fault d = Some (OpenFails m)) \<longrightarrow>
          content (fst (savePreviousState d st)) = content d
          \<and> length (snd (savePreviousState d st)) = 1)
   \<and> ((\<not> parent_exists d \<and> mkdir_error d \<noteq> None)
        \<or> (\<exists>m. write_fault d = Some (OpenFails m)) \<longrightarrow>
          content (fst (savePreviousState_mkdir p d st)) = content d
          \<and> length (snd (savePreviousState_mkdir p d st)) = 1)
   \<and> snd (monitor env pf (d\<lparr>write_fault := w\<rparr>)) = snd (monitor env pf d)"
proof -
  have a: "\<forall>e. readFileSync d STATE_FILE = Inl e \<longrightarrow> loadPreviousState d = JObj []"
    by (simp add: loadPreviousState_def)
  have b: "\<forall>t. readFileSync d STATE_FILE = Inr t \<and> json_parse t = None \<longrightarrow>
          loadPreviousState d = JObj []"
    by (simp add: loadPreviousState_def)
  have b': "\<forall>t kvs. readFileSync d STATE_FILE = Inr t \<and> json_parse t = Some (JObj kvs) \<longrightarrow>
          loadPreviousState d = JObj kvs"
    by (simp add: loadPreviousState_def)
  have c: "\<not> parent_exists d \<and> mkdir_error d = None \<and> write_fault d = None \<longrightarrow>
          savePreviousState_mkdir p d st =
            (d\<lparr>parent_exists := True, content := Some (stringify_state st)\<rparr>, [])"
    by (simp add: savePreviousState_mkdir_ok)
  have e: "\<forall>e d'. writeFileSync d STATE_FILE (stringify_state st) = (Some e, d') \<longrightarrow>
          savePreviousState d st = (d', [save_warning e])"
    by (simp add: savePreviousState_def)
  have f: "\<forall>e d'. writeFileSync (case mkdirSync d of Inr d1 \<Rightarrow> d1 | Inl x \<Rightarrow> d) p
                (stringify_state st) = (Some e, d') \<longrightarrow>
          savePreviousState_mkdir p d st = (d', [save_warning e])"
    by (simp add: savePreviousState_mkdir_def Let_def)
  have g: "\<not> parent_exists d \<or> (\<exists>m. write_fault d = Some (OpenFails m)) \<longrightarrow>
          content (fst (savePreviousState d st)) = content d
          \<and> length (snd (savePreviousState d st)) = 1"
    by (auto simp add: savePreviousState_def writeFileSync_def)
  have h: "(\<not> parent_exists d \<and> mkdir_error d \<noteq> None)
        \<or> (\<exists>m. write_fault d = Some (OpenFails m)) \<longrightarrow>
          content (fst (savePreviousState_mkdir p d st)) = content d
          \<and> length (snd (savePreviousState_mkdir p d st)) = 1"
    by (auto simp add: savePreviousState_mkdir_def writeFileSync_def mkdirSync_def Let_def
             split: option.splits)
  show ?thesis
    using a b b' c e f g h monitor_exit_write_fault by blast
qed

theorem state_store_contract_witness:
  "loadPreviousState example_fs = JObj []
   \<and> savePreviousState_mkdir STATE_FILE (example_fs\<lparr>parent_exists := False\<rparr>) []
       = (example_fs\<lparr>content := Some (str ''{}'')\<rparr>, [])
   \<and> savePreviousState
        (example_fs\<lparr>write_fault := Some (OpenFails example_eacces)\<rparr>)
        []
       = (example_fs\<lparr>write_fault := Some (OpenFails example_eacces)\<rparr>,
          [str ''Could not save state: '' @ example_eacces])"
proof -
  let ?w = "example_fs\<lparr>write_fault := Some (OpenFails example_eacces)\<rparr>"
  have r: "readFileSync example_fs STATE_FILE = Inl (enoent STATE_FILE)"
    by (simp add: readFileSync_def example_fs_def)
  have 1: "loadPreviousState example_fs = JObj []"
    using state_store_contract[of example_fs] r by blast
  have 2: "savePreviousState_mkdir STATE_FILE (example_fs\<lparr>parent_exists := False\<rparr>) []
       = (example_fs\<lparr>content := Some (str ''{}'')\<rparr>, [])"
    using state_store_contract[of "example_fs\<lparr>parent_exists := False\<rparr>" STATE_FILE "[]"]
    by (simp add: example_fs_def stringify_state_def)
  have w: "writeFileSync ?w STATE_FILE (stringify_state [])
             = (Some (Exn (str ''Error'') example_eacces), ?w)"
    by (simp add: writeFileSync_def example_fs_def)
  have 3: "savePreviousState ?w []
       = (?w, [str ''Could not save state: '' @ example_eacces])"
    using state_store_contract[of ?w _ "[]"] w
    by (simp add: save_warning_def)
  show ?thesis using 1 2 3 by blast
qed

text \<open>
  The claim as it was stated fails in three places. Where the state file holds the
  text \<open>null\<close>, the text parses and what \<open>loadPreviousState\<close> returns is no mapping. The
  \<open>savePreviousState\<close> of \<open>monitor.mjs\<close> does not create a missing directory: the write
  fails and the directory is still missing. And a write that fails after the file was
  opened does not leave the content in place: the file was emptied by the open.
\<close>

theorem state_store_counterexample:
  "loadPreviousState (example_fs\<lparr>content := Some (str ''null'')\<rparr>) = JNull
   \<and> savePreviousState (example_fs\<lparr>parent_exists := False\<rparr>) []
       = (example_fs\<lparr>parent_exists := False\<rparr>,
          [str ''Could not save state: ENOENT: no such file or directory, open ''
           @ [0x27] @ str ''/tmp/monitor-state.json'' @ [0x27]])
   \<and> savePreviousState
        (example_fs\<lparr>content := Some (stringify_state [(str ''https://a.example'', True)]),
                    write_fault := Some (WriteFails example_enospc [])\<rparr>)
        [(str ''https://a.example'', False)]
       = (example_fs\<lparr>content := Some [],
                    write_fault := Some (WriteFails example_enospc [])\<rparr>,
          [str ''Could not save state: '' @ example_enospc])"
proof -
  have p: "json_parse (str ''null'') = Some JNull" by code_simp
  have 1: "loadPreviousState (example_fs\<lparr>content := Some (str ''null'')\<rparr>) = JNull"
    by (simp add: loadPreviousState_def readFileSync_def example_fs_def p)
  have 2: "savePreviousState (example_fs\<lparr>parent_exists := False\<rparr>) []
       = (example_fs\<lparr>parent_exists := False\<rparr>,
          [str ''Could not save state: ENOENT: no such file or directory, open ''
           @ [0x27] @ str ''/tmp/monitor-state.json'' @ [0x27]])"
    by (simp add: savePreviousState_def writeFileSync_def example_fs_def save_warning_def
        enoent_def STATE_FILE_def str_def)
  have 3: "savePreviousState
        (example_fs\<lparr>content := Some (stringify_state [(str ''https://a.example'', True)]),
                    write_fault := Some (WriteFails example_enospc [])\<rparr>)
        [(str ''https://a.example'', False)]
       = (example_fs\<lparr>content := Some [],
                    write_fault := Some (WriteFails example_enospc [])\<rparr>,
          [str ''Could not save state: '' @ example_enospc])"
    by (simp add: savePreviousState_def writeFileSync_def example_fs_def save_warning_def)
  show ?thesis using 1 2 3 by blast
qed

section \<open>The prober: proofs\<close>

lemma take_is_prefix: "take (length s) t = s \<longleftrightarrow> (\<exists>q. t = s @ q)"
  by (metis append_eq_conv_conj append_take_drop_id)

lemma includes_str_iff: "includes_str t s \<longleftrightarrow> (\<exists>p q. t = p @ s @ q)"
proof (induction t)
  case Nil
  show ?case by auto
next
  case (Cons c cs)
  have "(\<exists>p q. c # cs = p @ s @ q) \<longleftrightarrow> (\<exists>q. c # cs = s @ q) \<or> (\<exists>p q. cs = p @ s @ q)"
  proof
    assume "\<exists>p q. c # cs = p @ s @ q"
    then obtain p q where pq: "c # cs = p @ s @ q" by blast
    show "(\<exists>q. c # cs = s @ q) \<or> (\<exists>p q. cs = p @ s @ q)"
    proof (cases p)
      case Nil
      with pq show ?thesis by auto
    next
      case (Cons a p')
      with pq have "cs = p' @ s @ q" by simp
      then show ?thesis by blast
    qed
  next
    assume "(\<exists>q. c # cs = s @ q) \<or> (\<exists>p q. cs = p @ s @ q)"
    then show "\<exists>p q. c # cs = p @ s @ q"
    proof
      assume "\<exists>q. c # cs = s @ q"
      then show ?thesis by (metis append_Nil)
    next
      assume "\<exists>p q. cs = p @ s @ q"
      then obtain p q where "cs = p @ s @ q" by blast
      then have "c # cs = (c # p) @ s @ q" by simp
      then show ?thesis by blast
    qed
  qed
  then show ?case using Cons.IH by (simp only: includes_str.simps take_is_prefix)
qed

text \<open>
  Claim C6. For a completed response, \<open>up\<close> is the status check (equality with
  \<open>expectStatus\<close> when it is set, that is a number other than 0, and the range 200 to
  299 otherwise) when no text is expected (\<open>expectText\<close> is \<open>null\<close> or empty), whatever
  reading the body would give; it is the status check together with the occurrence of
  the lower-cased expected text in the lower-cased body when a text is expected. A
  rejected fetch, and a rejected read of a body that is needed, give the outcome with
  \<open>up = false\<close>, status 0, the message of the error, no latency and \<open>slow = false\<close>.
\<close>

theorem checkOnce_classification:
  "(\<forall>st el body. fr = Responded st el body
        \<and> (expectText tgt = None \<or> expectText tgt = Some []) \<longrightarrow>
      checkOnce lower tgt fr =
        \<lparr>name = target.name tgt, url = target.url tgt,
         up = ((\<exists>e. expectStatus tgt = Some e \<and> e \<noteq> 0 \<and> st = e)
               \<or> ((expectStatus tgt = None \<or> expectStatus tgt = Some 0)
                   \<and> 200 \<le> st \<and> st \<le> 299)),
         status = st, ms = Some el, slow = (el > SLOW_THRESHOLD_MS), error = None\<rparr>)
   \<and> (\<forall>st el text sub. fr = Responded st el (BodyText text)
        \<and> expectText tgt = Some sub \<and> sub \<noteq> [] \<longrightarrow>
      checkOnce lower tgt fr =
        \<lparr>name = target.name tgt, url = target.url tgt,
         up = (((\<exists>e. expectStatus tgt = Some e \<and> e \<noteq> 0 \<and> st = e)
                \<or> ((expectStatus tgt = None \<or> expectStatus tgt = Some 0)
                    \<and> 200 \<le> st \<and> st \<le> 299))
               \<and> (\<exists>p q. lower text = p @ lower sub @ q)),
         status = st, ms = Some el, slow = (el > SLOW_THRESHOLD_MS), error = None\<rparr>)
   \<and> (\<forall>err. (fr = Rejected err
               \<or> (\<exists>st el sub. fr = Responded st el (BodyRejected err)
                     \<and> expectText tgt = Some sub \<and> sub \<noteq> [])) \<longrightarrow>
      checkOnce lower tgt fr =
        \<lparr>name = target.name tgt, url = target.url tgt, up = False, status = 0,
         ms = None, slow = False, error = Some (message_or_string err)\<rparr>)"
proof -
  have a: "\<forall>st el body. fr = Responded st el body
        \<and> (expectText tgt = None \<or> expectText tgt = Some []) \<longrightarrow>
      checkOnce lower tgt fr =
        \<lparr>name = target.name tgt, url = target.url tgt,
         up = ((\<exists>e. expectStatus tgt = Some e \<and> e \<noteq> 0 \<and> st = e)
               \<or> ((expectStatus tgt = None \<or> expectStatus tgt = Some 0)
                   \<and> 200 \<le> st \<and> st \<le> 299)),
         status = st, ms = Some el, slow = (el > SLOW_THRESHOLD_MS), error = None\<rparr>"
    by (cases "expectStatus tgt") (auto simp: checkOnce_def response_ok_def)
  have b: "\<forall>st el text sub. fr = Responded st el (BodyText text)
        \<and> expectText tgt = Some sub \<and> sub \<noteq> [] \<longrightarrow>
      checkOnce lower tgt fr =
        \<lparr>name = target.name tgt, url = target.url tgt,
         up = (((\<exists>e. expectStatus tgt = Some e \<and> e \<noteq> 0 \<and> st = e)
                \<or> ((expectStatus tgt = None \<or> expectStatus tgt = Some 0)
                    \<and> 200 \<le> st \<and> st \<le> 299))
               \<and> (\<exists>p q. lower text = p @ lower sub @ q)),
         status = st, ms = Some el, slow = (el > SLOW_THRESHOLD_MS), error = None\<rparr>"
    by (cases "expectStatus tgt")
       (auto simp: checkOnce_def response_ok_def includes_str_iff)
  have c: "\<forall>err. (fr = Rejected err
               \<or> (\<exists>st el sub. fr = Responded st el (BodyRejected err)
                     \<and> expectText tgt = Some sub \<and> sub \<noteq> [])) \<longrightarrow>
      checkOnce lower tgt fr =
        \<lparr>name = target.name tgt, url = target.url tgt, up = False, status = 0,
         ms = None, slow = False, error = Some (message_or_string err)\<rparr>"
    by (auto simp: checkOnce_def failed_outcome_def)
  show ?thesis using a b c by blast
qed

theorem checkOnce_classification_witness:
  "checkOnce ascii_lower example_target (Responded 500 40 (BodyRejected fetch_failed))
     = \<lparr>name = str ''Production'', url = str ''https://a.example'', up = False,
        status = 500, ms = Some 40, slow = False, error = None\<rparr>
   \<and> up (checkOnce ascii_lower example_text_target
            (Responded 200 3000 (BodyText (str ''Service status: ok''))))
   \<and> checkOnce ascii_lower example_text_target (Responded 200 40 (BodyRejected fetch_failed))
     = \<lparr>name = str ''Staging'', url = str ''https://b.example'', up = False,
        status = 0, ms = None, slow = False, error = Some (str ''fetch failed'')\<rparr>"
proof -
  have 1: "checkOnce ascii_lower example_target (Responded 500 40 (BodyRejected fetch_failed))
     = \<lparr>name = str ''Production'', url = str ''https://a.example'', up = False,
        status = 500, ms = Some 40, slow = False, error = None\<rparr>"
    using checkOnce_classification[of "Responded 500 40 (BodyRejected fetch_failed)"
        example_target ascii_lower]
    by (simp add: example_target_def SLOW_THRESHOLD_MS_def)
  have l: "ascii_lower (str ''Service status: ok'') = str ''service '' @ ascii_lower (str ''Status: OK'') @ []"
    by (simp add: ascii_lower_def str_def)
  have e: "expectText example_text_target = Some (str ''Status: OK'')"
    "str ''Status: OK'' \<noteq> []" "expectStatus example_text_target = None"
    by (simp_all add: example_text_target_def str_def)
  have o: "\<exists>p q. ascii_lower (str ''Service status: ok'')
                  = p @ ascii_lower (str ''Status: OK'') @ q"
    using l by blast
  have "checkOnce ascii_lower example_text_target
            (Responded 200 3000 (BodyText (str ''Service status: ok''))) =
        \<lparr>name = target.name example_text_target, url = target.url example_text_target,
         up = (((\<exists>e. expectStatus example_text_target = Some e \<and> e \<noteq> 0 \<and> 200 = e)
                \<or> ((expectStatus example_text_target = None
                     \<or> expectStatus example_text_target = Some 0)
                    \<and> (200::nat) \<le> 200 \<and> (200::nat) \<le> 299))
               \<and> (\<exists>p q. ascii_lower (str ''Service status: ok'')
                           = p @ ascii_lower (str ''Status: OK'') @ q)),
         status = 200, ms = Some 3000, slow = (3000 > SLOW_THRESHOLD_MS), error = None\<rparr>"
    using checkOnce_classification[of "Responded 200 3000 (BodyText (str ''Service status: ok''))"
        example_text_target ascii_lower] e(1,2)
    by blast
  then have 2: "up (checkOnce ascii_lower example_text_target
            (Responded 200 3000 (BodyText (str ''Service status: ok''))))"
    using o e(3) by simp
  have 3: "checkOnce ascii_lower example_text_target (Responded 200 40 (BodyRejected fetch_failed))
     = \<lparr>name = str ''Staging'', url = str ''https://b.example'', up = False,
        status = 0, ms = None, slow = False, error = Some (str ''fetch failed'')\<rparr>"
    using checkOnce_classification[of "Responded 200 40 (BodyRejected fetch_failed)"
        example_text_target ascii_lower]
    by (simp add: example_text_target_def fetch_failed_def message_or_string_def str_def)
  show ?thesis using 1 2 3 by blast
qed

section \<open>The reporter: proofs\<close>

lemma notify_completes: "fst (notify webhook transport message) = Inr ()"
  by (simp add: notify_def catch_ignore_def Let_def split: sum.splits)

lemma notify_unset: "snd (notify [] transport message) = []"
  by (simp add: notify_def)

lemma main_completion_webhook:
  "completion (main env (pf\<lparr>webhook_fetch := transport\<rparr>) d) = completion (main env pf d)"
proof -
  have p: "probe_all (pf\<lparr>webhook_fetch := transport\<rparr>) ts = probe_all pf ts" for ts
    by (simp add: probe_all_def)
  have l: "log_line (pf\<lparr>webhook_fetch := transport\<rparr>) rs = log_line pf rs" for rs
    by (simp add: log_line_def)
  show ?thesis
    unfolding main_def p l
    by (simp add: Let_def split_def notify_completes split: option.splits sum.splits)
qed

lemma monitor_exit_webhook:
  "snd (monitor env (pf\<lparr>webhook_fetch := transport\<rparr>) d) = snd (monitor env pf d)"
  unfolding monitor_def Let_def main_completion_webhook
  by (simp add: split_def split: sum.splits)

text \<open>
  Claim C9. \<open>notify\<close> always completes normally, whatever the webhook does with the
  request. When the webhook URL is not set it makes no request; when it is set it
  makes the one POST request with the message as JSON. The exit code of a run does
  not depend on what the webhook does.
\<close>

theorem notify_never_raises:
  "fst (notify webhook transport message) = Inr ()
   \<and> (webhook = [] \<longrightarrow> snd (notify webhook transport message) = [])
   \<and> (webhook \<noteq> [] \<longrightarrow>
        snd (notify webhook transport message) =
          [\<lparr>req_url = webhook, req_method = str ''POST'',
            req_headers = [(str ''content-type'', str ''application/json'')],
            req_body = stringify_content message\<rparr>])
   \<and> snd (monitor env (pf\<lparr>webhook_fetch := transport\<rparr>) d) = snd (monitor env pf d)"
proof -
  have "webhook \<noteq> [] \<longrightarrow>
        snd (notify webhook transport message) =
          [\<lparr>req_url = webhook, req_method = str ''POST'',
            req_headers = [(str ''content-type'', str ''application/json'')],
            req_body = stringify_content message\<rparr>]"
    by (simp add: notify_def Let_def catch_ignore_def split: sum.splits)
  then show ?thesis
    using notify_completes notify_unset monitor_exit_webhook by blast
qed

theorem notify_never_raises_witness:
  "notify [] (\<lambda>r. Inl fetch_failed) (str ''hello'') = (Inr (), [])
   \<and> notify (str ''https://hook.example'') (\<lambda>r. Inl fetch_failed) (str ''up'' @ [0x0A] @ str ''down'') =
       (Inr (),
        [\<lparr>req_url = str ''https://hook.example'', req_method = str ''POST'',
          req_headers = [(str ''content-type'', str ''application/json'')],
          req_body = str ''{\"content\":\"up'' @ [0x5C, 0x6E] @ str ''down\"}''\<rparr>])"
proof -
  have c: "stringify_content (str ''up'' @ [0x0A] @ str ''down'') = str ''{\"content\":\"up'' @ [0x5C, 0x6E] @ str ''down\"}''"
    by code_simp
  have n: "str ''https://hook.example'' \<noteq> []" by (simp add: str_def)
  have 1: "notify [] (\<lambda>r. Inl fetch_failed) (str ''hello'') = (Inr (), [])"
    using notify_never_raises[of "[]" "\<lambda>r. Inl fetch_failed" "str ''hello''"]
    by (simp add: prod_eq_iff)
  have 2: "notify (str ''https://hook.example'') (\<lambda>r. Inl fetch_failed) (str ''up'' @ [0x0A] @ str ''down'') =
       (Inr (),
        [\<lparr>req_url = str ''https://hook.example'', req_method = str ''POST'',
          req_headers = [(str ''content-type'', str ''application/json'')],
          req_body = str ''{\"content\":\"up'' @ [0x5C, 0x6E] @ str ''down\"}''\<rparr>])"
    using notify_never_raises[of "str ''https://hook.example''" "\<lambda>r. Inl fetch_failed"
        "str ''up'' @ [0x0A] @ str ''down''"] n c
    by (simp add: prod_eq_iff)
  show ?thesis using 1 2 by blast
qed

section \<open>The orchestrator: proofs\<close>

lemma those_all_Some:
  "\<forall>x\<in>set xs. \<exists>y. x = Some y \<Longrightarrow> \<exists>ys. those xs = Some ys \<and> length ys = length xs"
proof (induction xs)
  case Nil
  show ?case by simp
next
  case (Cons x xs)
  then obtain ys where "those xs = Some ys" "length ys = length xs" by auto
  moreover obtain y where "x = Some y" using Cons.prems by auto
  ultimately show ?case by simp
qed

text \<open>Every probe returns an outcome, so \<open>results\<close> has one outcome per target.\<close>

lemma probe_all_defined:
  "\<exists>results. those (probe_all pf ts) = Some results \<and> length results = length ts"
proof -
  have "\<forall>x\<in>set (probe_all pf ts). \<exists>y. x = Some y"
    using checkWithRetries_returns by (auto simp: probe_all_def)
  then obtain ys where "those (probe_all pf ts) = Some ys"
    "length ys = length (probe_all pf ts)"
    using those_all_Some by blast
  then show ?thesis by (simp add: probe_all_def)
qed

lemma hasChanges_empty_state: "rs \<noteq> [] \<Longrightarrow> hasChanges rt rs (JObj []) = Inr True"
  by (cases rs) (simp_all add: proto_lookup_def)

lemma hasChanges_obj:
  "hasChanges rt rs (JObj kvs) =
     Inr (\<exists>r\<in>set rs. map_of kvs (url r) = None
                    \<or> (\<exists>v. map_of kvs (url r) = Some v \<and> v \<noteq> JBool (up r)))"
proof (induction rs)
  case Nil
  show ?case by simp
next
  case (Cons r rs)
  show ?case
  proof (cases "map_of kvs (url r)")
    case None
    then show ?thesis by (simp add: proto_lookup_def)
  next
    case (Some v)
    then show ?thesis using Cons.IH by simp
  qed
qed

lemma formatStatusMessage_nonempty: "formatStatusMessage results timestamp t \<noteq> []"
  by (simp add: formatStatusMessage_def Let_def)

lemma status_report_nonempty: "status_report results \<noteq> []"
  by (cases results) (simp_all add: status_report_def bar_chart_def)

lemma join_nonempty:
  assumes "xs \<noteq> []" and "hd xs \<noteq> []"
  shows "join sep xs \<noteq> []"
proof (cases xs)
  case Nil
  then show ?thesis using assms(1) by simp
next
  case (Cons x ys)
  then show ?thesis using assms(2) by (cases ys) simp_all
qed

lemma change_messages_nonempty:
  assumes "cs \<noteq> []" and "\<forall>c\<in>set cs. type c \<noteq> down"
  shows "concat (map change_message cs) \<noteq> []"
    and "hd (concat (map change_message cs)) \<noteq> []"
proof -
  obtain c cs' where c: "cs = c # cs'" using assms(1) by (cases cs) auto
  then have t: "type c \<noteq> down" using assms(2) by simp
  obtain m where m: "change_message c = [m]" "m \<noteq> []"
    using t by (cases "type c") (simp_all add: change_message_def rotating_light_def
        red_circle_def green_circle_def)
  show "concat (map change_message cs) \<noteq> []" using c m by simp
  show "hd (concat (map change_message cs)) \<noteq> []" using c m by simp
qed

lemma detectChanges_types:
  "detectChanges rt rs prev = Inr cs \<Longrightarrow> \<forall>c\<in>set cs. type c \<noteq> down"
  unfolding detectChanges_def using detectChanges_loop_types[of rt prev rs "[]" cs] by simp

subsection \<open>What main does, by the result of the change detector\<close>

lemma main_unfold:
  assumes "those (probe_all pf (TARGETS env)) = Some results"
    and "hasChanges (prototypes pf) results (loadPreviousState d) = Inr sn"
  shows "main env pf d =
     (let statusMessage = formatStatusMessage results (localTime pf) (endTime pf - startTime pf);
          saved = savePreviousState d (currentState results)
      in if sn \<or> forceReport env
         then \<lparr>completion = Inr (), disk = fst saved, notifications = [statusMessage],
               posts = snd (notify (DISCORD_WEBHOOK_URL env) (webhook_fetch pf) statusMessage),
               console = [log_line pf results] @ snd saved @
                 [if forceReport env then str ''Manual status report sent to Discord''
                  else str ''Status notification sent to Discord'']\<rparr>
         else \<lparr>completion = Inr (), disk = fst saved, notifications = [], posts = [],
               console = [log_line pf results] @ snd saved @
                 [str ''All services up and no changes detected - no notifications sent'']\<rparr>)"
  using notify_completes[of "DISCORD_WEBHOOK_URL env" "webhook_fetch pf"
      "formatStatusMessage results (localTime pf) (endTime pf - startTime pf)"]
  by (simp add: main_def assms Let_def split_def split: sum.splits)

lemma main_detectChanges_unfold:
  assumes "those (probe_all pf (TARGETS env)) = Some results"
    and "detectChanges (prototypes pf) results (loadPreviousState d) = Inr changes"
  shows "main_detectChanges env pf d =
     (let saved = savePreviousState d (currentState results);
          messages = concat (map change_message changes)
      in if changes \<noteq> []
         then \<lparr>completion = Inr (), disk = fst saved,
               notifications = [join [0x0A, 0x0A] messages],
               posts = snd (notify (DISCORD_WEBHOOK_URL env) (webhook_fetch pf)
                              (join [0x0A, 0x0A] messages)),
               console = [log_line pf results] @ snd saved\<rparr>
         else if forceReport env
         then \<lparr>completion = Inr (), disk = fst saved,
               notifications = [status_report results],
               posts = snd (notify (DISCORD_WEBHOOK_URL env) (webhook_fetch pf)
                              (status_report results)),
               console = [log_line pf results] @ snd saved @
                 [str ''Manual status report sent to Discord'']\<rparr>
         else \<lparr>completion = Inr (), disk = fst saved, notifications = [], posts = [],
               console = [log_line pf results] @ snd saved @
                 [str ''No status changes detected - no notifications sent'']\<rparr>)"
proof (cases "changes = []")
  case True
  then show ?thesis
    using notify_completes[of "DISCORD_WEBHOOK_URL env" "webhook_fetch pf"
      "status_report results"]
    by (simp add: main_detectChanges_def assms Let_def split_def split: sum.splits)
next
  case False
  have m: "concat (map change_message changes) \<noteq> []"
    using change_messages_nonempty(1)[OF False detectChanges_types[OF assms(2)]] .
  show ?thesis
    using False m notify_completes[of "DISCORD_WEBHOOK_URL env" "webhook_fetch pf"
      "join [0x0A, 0x0A] (concat (map change_message changes))"]
    by (simp add: main_detectChanges_def assms Let_def split_def prod_eq_iff split: sum.splits)
qed

subsection \<open>The state that is saved\<close>

lemma keys_overwrite: "map fst (overwrite k v kvs) = map fst kvs"
  by (induction kvs) auto

lemma keys_insert_index:
  "set (map fst (insert_index i k v kvs)) = insert k (set (map fst kvs))"
proof (induction kvs)
  case Nil
  show ?case by simp
next
  case (Cons a kvs)
  obtain k' v' where a: "a = (k', v')" by (cases a)
  show ?case
  proof (cases "index_of k'")
    case None
    then show ?thesis by (simp add: a)
  next
    case (Some j)
    then show ?thesis using Cons.IH by (cases "i < j") (auto simp: a)
  qed
qed

lemma distinct_insert_index:
  "k \<notin> set (map fst kvs) \<Longrightarrow> distinct (map fst kvs) \<Longrightarrow>
   distinct (map fst (insert_index i k v kvs))"
proof (induction kvs)
  case Nil
  show ?case by simp
next
  case (Cons a kvs)
  obtain k' v' where a: "a = (k', v')" by (cases a)
  have n: "k' \<notin> set (map fst (insert_index i k v kvs))"
    using Cons.prems unfolding keys_insert_index by (auto simp: a)
  have IH: "distinct (map fst (insert_index i k v kvs))"
    using Cons by simp
  show ?case
  proof (cases "index_of k'")
    case None
    then show ?thesis using Cons.prems by (simp add: a)
  next
    case (Some j)
    then show ?thesis using Cons.prems n IH by (cases "i < j") (simp_all add: a)
  qed
qed

lemma distinct_define_own:
  assumes "distinct (map fst kvs)"
  shows "distinct (map fst (define_own kvs k v))"
proof (cases "k \<in> fst ` set kvs")
  case True
  then show ?thesis using assms by (simp add: define_own_def keys_overwrite)
next
  case False
  note d = assms
  from False have n: "k \<notin> set (map fst kvs)" by simp
  show ?thesis
    using False d distinct_insert_index[OF n d]
    by (cases "index_of k") (simp_all add: define_own_def)
qed

lemma currentState_snoc:
  "currentState (rs @ [r]) = obj_set (currentState rs) (url r) (up r)"
  by (simp add: currentState_def)

lemma distinct_currentState: "distinct (map fst (currentState results))"
proof (induction results rule: rev_induct)
  case Nil
  show ?case by (simp add: currentState_def)
next
  case (snoc r rs)
  then show ?case by (simp add: currentState_snoc obj_set_def distinct_define_own)
qed

lemma map_of_currentState:
  "map_of (currentState results) k =
     (if k = str ''__proto__'' then None
      else map_option up (find (\<lambda>r. url r = k) (rev results)))"
proof (induction results rule: rev_induct)
  case Nil
  show ?case by (simp add: currentState_def)
next
  case (snoc r rs)
  then show ?case
    by (auto simp add: currentState_snoc obj_set_def map_of_define_own)
qed

lemma main_disk:
  assumes "those (probe_all pf (TARGETS env)) = Some results"
    and "loadPreviousState d \<noteq> JNull"
  shows "disk (main env pf d) = fst (savePreviousState d (currentState results))"
    and "disk (main_detectChanges env pf d) = fst (savePreviousState d (currentState results))"
proof -
  obtain sn where sn: "hasChanges (prototypes pf) results (loadPreviousState d) = Inr sn"
    using hasChanges_total[OF assms(2)] by blast
  obtain cs where cs: "detectChanges (prototypes pf) results (loadPreviousState d) = Inr cs"
    using detectChanges_total[OF assms(2)] by blast
  show "disk (main env pf d) = fst (savePreviousState d (currentState results))"
    by (simp add: main_unfold[OF assms(1) sn] Let_def)
  show "disk (main_detectChanges env pf d)
             = fst (savePreviousState d (currentState results))"
    by (simp add: main_detectChanges_unfold[OF assms(1) cs] Let_def)
qed

text \<open>
  Claim C5, as amended. On every run in which the previous state loaded is not
  \<open>null\<close>, whether a notification is sent or not, \<open>savePreviousState\<close> is called with
  \<open>currentState\<close>: its keys are the URLs of the outcomes of the run, a URL \<open>__proto__\<close>
  apart, and each is mapped to the \<open>up\<close> of the last outcome with that URL. When the
  write succeeds the state file holds this state and nothing else: loading it gives
  exactly these entries.
\<close>

theorem state_saved_every_run:
  assumes "those (probe_all pf (TARGETS env)) = Some results"
    and "loadPreviousState d \<noteq> JNull"
  shows "disk (main env pf d) = fst (savePreviousState d (currentState results))
       \<and> disk (main_detectChanges env pf d) = fst (savePreviousState d (currentState results))
       \<and> (\<forall>k. map_of (currentState results) k =
                (if k = str ''__proto__'' then None
                 else map_option up (find (\<lambda>r. url r = k) (rev results))))
       \<and> (parent_exists d \<and> write_fault d = None \<longrightarrow>
            content (disk (main env pf d)) = Some (stringify_state (currentState results))
          \<and> (read_error d = None \<longrightarrow>
               (\<exists>obj. loadPreviousState (disk (main env pf d)) = JObj obj
                  \<and> (\<forall>k. map_of obj k
                          = map_option JBool (map_of (currentState results) k)))))"
proof -
  note 1 = main_disk(1)[OF assms]
  note 2 = main_disk(2)[OF assms]
  have 4: "parent_exists d \<and> write_fault d = None \<longrightarrow>
            content (disk (main env pf d)) = Some (stringify_state (currentState results))
          \<and> (read_error d = None \<longrightarrow>
               (\<exists>obj. loadPreviousState (disk (main env pf d)) = JObj obj
                  \<and> (\<forall>k. map_of obj k
                          = map_option JBool (map_of (currentState results) k))))"
  proof (intro impI, elim conjE)
    assume w: "parent_exists d" "write_fault d = None"
    have s: "disk (main env pf d) = d\<lparr>content := Some (stringify_state (currentState results))\<rparr>"
      unfolding 1 by (simp add: savePreviousState_ok[OF w])
    have l: "read_error d = None \<Longrightarrow>
        loadPreviousState (disk (main env pf d)) = JObj (state_object [] (currentState results))"
      unfolding s by (rule loadPreviousState_written) simp_all
    show "content (disk (main env pf d)) = Some (stringify_state (currentState results))
          \<and> (read_error d = None \<longrightarrow>
               (\<exists>obj. loadPreviousState (disk (main env pf d)) = JObj obj
                  \<and> (\<forall>k. map_of obj k
                          = map_option JBool (map_of (currentState results) k))))"
      using s l map_of_state_object_distinct[OF distinct_currentState[of results]] by simp
  qed
  show ?thesis using 1 2 4 map_of_currentState by blast
qed

subsection \<open>The example run\<close>

lemma example_probe:
  "those (probe_all example_platform (TARGETS example_env)) = Some [example_down]"
  by code_simp

lemma example_probe_force:
  "those (probe_all example_platform
            (TARGETS (example_env\<lparr>FORCE_STATUS_REPORT := Some (str ''true'')\<rparr>)))
     = Some [example_down]"
  by code_simp

lemma example_probe_up:
  "those (probe_all example_platform_up (TARGETS example_env)) = Some [example_up]"
  by code_simp

lemma example_no_targets:
  "those (probe_all example_platform (TARGETS (example_env\<lparr>PROD_MONITOR_URL := None\<rparr>)))
     = Some []"
  by code_simp

lemma example_load_empty: "loadPreviousState example_fs = JObj []"
  by (simp add: loadPreviousState_def readFileSync_def example_fs_def)

lemma example_load_null:
  "loadPreviousState (example_fs\<lparr>content := Some (str ''null'')\<rparr>) = JNull"
proof -
  have p: "json_parse (str ''null'') = Some JNull" by code_simp
  show ?thesis by (simp add: loadPreviousState_def readFileSync_def example_fs_def p)
qed

lemma example_load_up:
  "loadPreviousState
     (example_fs\<lparr>content := Some (stringify_state [(str ''https://a.example'', True)])\<rparr>)
   = JObj [(str ''https://a.example'', JBool True)]"
proof -
  have "loadPreviousState
     (example_fs\<lparr>content := Some (stringify_state [(str ''https://a.example'', True)])\<rparr>)
   = JObj (state_object [] [(str ''https://a.example'', True)])"
    by (rule loadPreviousState_written) (simp_all add: example_fs_def)
  then show ?thesis by (simp add: state_object_def define_own_def index_of_def str_def)
qed

lemma example_currentState:
  "currentState [example_down] = [(str ''https://a.example'', False)]"
  by (simp add: currentState_def obj_set_def define_own_def example_down_def index_of_def
      str_def)

lemma example_hasChanges_null:
  "hasChanges node_prototypes [example_down] JNull
     = Inl (null_read_error (str ''https://a.example''))"
  by (simp add: example_down_def)

theorem state_saved_every_run_witness:
  "those (probe_all example_platform (TARGETS example_env)) = Some [example_down]
   \<and> loadPreviousState example_fs \<noteq> JNull
   \<and> disk (main example_env example_platform example_fs)
       = example_fs\<lparr>content := Some (stringify_state [(str ''https://a.example'', False)])\<rparr>
   \<and> disk (main_detectChanges example_env example_platform example_fs)
       = example_fs\<lparr>content := Some (stringify_state [(str ''https://a.example'', False)])\<rparr>"
proof -
  have n: "loadPreviousState example_fs \<noteq> JNull" by (simp add: example_load_empty)
  have w: "parent_exists example_fs" "write_fault example_fs = None"
    by (simp_all add: example_fs_def)
  show ?thesis
    using state_saved_every_run[OF example_probe n] example_probe n
    by (simp add: example_currentState savePreviousState_ok[OF w])
qed

lemma example_load_other:
  "loadPreviousState
     (example_fs\<lparr>content := Some (stringify_state [(str ''https://b.example'', True)]),
                 write_fault := Some (OpenFails example_eacces)\<rparr>)
   = JObj [(str ''https://b.example'', JBool True)]"
proof -
  have "loadPreviousState
     (example_fs\<lparr>content := Some (stringify_state [(str ''https://b.example'', True)]),
                 write_fault := Some (OpenFails example_eacces)\<rparr>)
   = JObj (state_object [] [(str ''https://b.example'', True)])"
    by (rule loadPreviousState_written) (simp_all add: example_fs_def)
  then show ?thesis by (simp add: state_object_def define_own_def index_of_def str_def)
qed

text \<open>
  The claim as it was stated fails in four ways. When two outcomes have the same URL,
  the key is mapped to the \<open>up\<close> of the last one, which need not be that of the first.
  When the state file holds the text \<open>null\<close>, the change detector throws before
  \<open>savePreviousState\<close> is called: \<open>main\<close> fails and the file is left as it was. A URL
  \<open>__proto__\<close> does not become a key. And when the write fails, the file still holds
  the entries of the run before, here one for a URL that is no longer configured.
\<close>

theorem state_saved_counterexample:
  "url example_up = url example_down \<and> up example_up
   \<and> map_of (currentState [example_up, example_down]) (url example_up) = Some False
   \<and> completion (main example_env example_platform
                   (example_fs\<lparr>content := Some (str ''null'')\<rparr>))
       = Inl (null_read_error (str ''https://a.example''))
   \<and> disk (main example_env example_platform
                   (example_fs\<lparr>content := Some (str ''null'')\<rparr>))
       = example_fs\<lparr>content := Some (str ''null'')\<rparr>
   \<and> currentState [example_down\<lparr>url := str ''__proto__''\<rparr>] = []
   \<and> content (disk (main example_env example_platform
        (example_fs\<lparr>content := Some (stringify_state [(str ''https://b.example'', True)]),
                    write_fault := Some (OpenFails example_eacces)\<rparr>)))
       = Some (stringify_state [(str ''https://b.example'', True)])"
proof -
  have 1: "url example_up = url example_down" "up example_up"
    by (simp_all add: example_up_def example_down_def)
  have 2: "map_of (currentState [example_up, example_down]) (url example_up) = Some False"
    by (simp add: map_of_currentState example_up_def example_down_def str_def)
  have p: "prototypes example_platform = node_prototypes"
    by (simp add: example_platform_def)
  have 3: "main example_env example_platform (example_fs\<lparr>content := Some (str ''null'')\<rparr>)
      = \<lparr>completion = Inl (null_read_error (str ''https://a.example'')),
         disk = example_fs\<lparr>content := Some (str ''null'')\<rparr>, notifications = [],
         posts = [], console = [log_line example_platform [example_down]]\<rparr>"
    by (simp add: main_def example_probe example_load_null p example_hasChanges_null Let_def
             del: hasChanges.simps)
  have 4: "currentState [example_down\<lparr>url := str ''__proto__''\<rparr>] = []"
    by (simp add: currentState_def obj_set_def)
  let ?d = "example_fs\<lparr>content := Some (stringify_state [(str ''https://b.example'', True)]),
                    write_fault := Some (OpenFails example_eacces)\<rparr>"
  have n: "loadPreviousState ?d \<noteq> JNull" by (simp add: example_load_other)
  have 5: "content (disk (main example_env example_platform ?d))
       = Some (stringify_state [(str ''https://b.example'', True)])"
    unfolding main_disk(1)[OF example_probe n]
    by (simp add: savePreviousState_def writeFileSync_def example_fs_def)
  show ?thesis using 1 2 4 5 by (simp add: 3)
qed

text \<open>
  Claim C4, as amended. When the change detector does not fail, \<open>notify\<close> is called
  in \<open>main\<close> of the version with \<open>detectChanges\<close> if and only if the list of changes is
  not empty or the force-report flag is set. In \<open>main\<close> of \<open>monitor.mjs\<close> it is called
  if and only if \<open>hasChanges\<close> is true or the flag is set; for a previous state that is
  an object this is: the URL of some outcome is not a key of the previous state or is
  mapped to a value other than that outcome's \<open>up\<close>, or the flag is set. So
  \<open>monitor.mjs\<close> also notifies on the first sight of a service that is up, where no
  detector reports a transition. Each message \<open>notify\<close> is called with is posted when
  the webhook URL is set. In \<open>monitor.mjs\<close> the message is always the full report,
  which is not empty. In the version with \<open>detectChanges\<close> the message is the full
  status report, which is not empty, when the flag is set and there is no change; when
  there are changes it is the list of the change messages, which is not empty, whether
  the flag is set or not.
\<close>

theorem notify_decision:
  assumes "those (probe_all pf (TARGETS env)) = Some results"
  shows "(\<forall>kvs. loadPreviousState d = JObj kvs \<longrightarrow>
            (notifications (main env pf d) \<noteq> [] \<longleftrightarrow>
               (\<exists>r\<in>set results. map_of kvs (url r) = None
                    \<or> (\<exists>v. map_of kvs (url r) = Some v \<and> v \<noteq> JBool (up r)))
               \<or> forceReport env))
       \<and> (\<forall>sn. hasChanges (prototypes pf) results (loadPreviousState d) = Inr sn \<longrightarrow>
            (notifications (main env pf d) \<noteq> [] \<longleftrightarrow> sn \<or> forceReport env)
          \<and> (sn \<or> forceReport env \<longrightarrow>
                notifications (main env pf d) =
                  [formatStatusMessage results (localTime pf) (endTime pf - startTime pf)]
              \<and> formatStatusMessage results (localTime pf) (endTime pf - startTime pf) \<noteq> [])
          \<and> posts (main env pf d) =
               concat (map (\<lambda>m. snd (notify (DISCORD_WEBHOOK_URL env) (webhook_fetch pf) m))
                         (notifications (main env pf d))))
       \<and> (\<forall>changes. detectChanges (prototypes pf) results (loadPreviousState d) = Inr changes \<longrightarrow>
            (notifications (main_detectChanges env pf d) \<noteq> []
               \<longleftrightarrow> changes \<noteq> [] \<or> forceReport env)
          \<and> (changes = [] \<and> forceReport env \<longrightarrow>
                notifications (main_detectChanges env pf d) = [status_report results]
              \<and> status_report results \<noteq> [])
          \<and> (changes \<noteq> [] \<longrightarrow>
                notifications (main_detectChanges env pf d) =
                  [join [0x0A, 0x0A] (concat (map change_message changes))]
              \<and> join [0x0A, 0x0A] (concat (map change_message changes)) \<noteq> [])
          \<and> posts (main_detectChanges env pf d) =
               concat (map (\<lambda>m. snd (notify (DISCORD_WEBHOOK_URL env) (webhook_fetch pf) m))
                         (notifications (main_detectChanges env pf d))))"
proof (intro conjI allI impI)
  fix kvs
  assume l: "loadPreviousState d = JObj kvs"
  have "hasChanges (prototypes pf) results (loadPreviousState d) =
          Inr (\<exists>r\<in>set results. map_of kvs (url r) = None
                    \<or> (\<exists>v. map_of kvs (url r) = Some v \<and> v \<noteq> JBool (up r)))"
    unfolding l by (rule hasChanges_obj)
  note u = main_unfold[OF assms this]
  show "(notifications (main env pf d) \<noteq> []) =
          ((\<exists>r\<in>set results. map_of kvs (url r) = None
                    \<or> (\<exists>v. map_of kvs (url r) = Some v \<and> v \<noteq> JBool (up r)))
           \<or> forceReport env)"
    by (simp add: u Let_def)
next
  fix sn
  assume sn: "hasChanges (prototypes pf) results (loadPreviousState d) = Inr sn"
  note u = main_unfold[OF assms sn]
  show "(notifications (main env pf d) \<noteq> []) = (sn \<or> forceReport env)"
    by (simp add: u Let_def)
  show "posts (main env pf d) =
          concat (map (\<lambda>m. snd (notify (DISCORD_WEBHOOK_URL env) (webhook_fetch pf) m))
                    (notifications (main env pf d)))"
    by (simp add: u Let_def)
  show "formatStatusMessage results (localTime pf) (endTime pf - startTime pf) \<noteq> []"
    by (rule formatStatusMessage_nonempty)
  assume "sn \<or> forceReport env"
  then show "notifications (main env pf d) =
          [formatStatusMessage results (localTime pf) (endTime pf - startTime pf)]"
    by (simp add: u Let_def)
next
  fix changes
  assume cs: "detectChanges (prototypes pf) results (loadPreviousState d) = Inr changes"
  note u = main_detectChanges_unfold[OF assms cs]
  show "(notifications (main_detectChanges env pf d) \<noteq> []) = (changes \<noteq> [] \<or> forceReport env)"
    by (simp add: u Let_def)
  show "posts (main_detectChanges env pf d) =
          concat (map (\<lambda>m. snd (notify (DISCORD_WEBHOOK_URL env) (webhook_fetch pf) m))
                    (notifications (main_detectChanges env pf d)))"
    by (simp add: u Let_def)
  show "status_report results \<noteq> []"
    by (rule status_report_nonempty)
  {
    assume "changes = [] \<and> forceReport env"
    then show "notifications (main_detectChanges env pf d) = [status_report results]"
      by (simp add: u Let_def)
  }
  {
    assume c: "changes \<noteq> []"
    then show "notifications (main_detectChanges env pf d) =
                  [join [0x0A, 0x0A] (concat (map change_message changes))]"
      by (simp add: u Let_def)
    show "join [0x0A, 0x0A] (concat (map change_message changes)) \<noteq> []"
      using change_messages_nonempty[OF c detectChanges_types[OF cs]]
      by (intro join_nonempty)
  }
qed

theorem notify_decision_witness:
  "those (probe_all example_platform (TARGETS example_env)) = Some [example_down]
   \<and> notifications (main example_env example_platform example_fs)
       = [formatStatusMessage [example_down] (str ''12/31/2024, 21:00:00'') 3250]
   \<and> notifications (main_detectChanges example_env example_platform example_fs)
       = [rotating_light @ str '' **INITIAL CHECK - SERVICE DOWN**'' @ [0x0A] @ fmt example_down]
   \<and> length (posts (main example_env example_platform example_fs)) = 1"
proof -
  have p: "prototypes example_platform = node_prototypes"
    "localTime example_platform = str ''12/31/2024, 21:00:00''"
    "endTime example_platform - startTime example_platform = 3250"
    by (simp_all add: example_platform_def)
  have g: "get_prop node_prototypes (JObj []) (str ''https://a.example'') = Inr Undefined"
    using url_not_inherited by (simp add: proto_lookup_def)
  have h: "hasChanges (prototypes example_platform) [example_down]
             (loadPreviousState example_fs) = Inr True"
    using hasChanges_empty_state[of "[example_down]" node_prototypes]
    by (simp add: p example_load_empty del: hasChanges.simps)
  have c: "detectChanges (prototypes example_platform) [example_down]
             (loadPreviousState example_fs)
           = Inr [\<lparr>type = initial_down, result = example_down\<rparr>]"
    unfolding p example_load_empty
    by (simp add: detectChanges_def example_down_def g del: get_prop.simps)
  have w: "DISCORD_WEBHOOK_URL example_env \<noteq> []"
    by (simp add: DISCORD_WEBHOOK_URL_def example_env_def str_def)
  note T = notify_decision[OF example_probe, of example_fs]
  from T h have a: "notifications (main example_env example_platform example_fs) =
      [formatStatusMessage [example_down] (localTime example_platform)
         (endTime example_platform - startTime example_platform)]"
    by blast
  from T h have b: "posts (main example_env example_platform example_fs) =
      concat (map (\<lambda>m. snd (notify (DISCORD_WEBHOOK_URL example_env)
                                (webhook_fetch example_platform) m))
                (notifications (main example_env example_platform example_fs)))"
    by blast
  from T c have d: "notifications (main_detectChanges example_env example_platform example_fs) =
      [join [0x0A, 0x0A]
         (concat (map change_message [\<lparr>type = initial_down, result = example_down\<rparr>]))]"
    by blast
  have e: "length (posts (main example_env example_platform example_fs)) = 1"
    unfolding b a using w by (simp add: notify_def Let_def catch_ignore_def split: sum.splits)
  show ?thesis
    using a d e example_probe by (simp add: p change_message_def)
qed

text \<open>
  The claim as it was stated fails on a first run of \<open>monitor.mjs\<close> on which the
  service is up: the previous state is empty, \<open>detectChanges\<close> and
  \<open>getChangedServices\<close> report no transition and the force-report flag is not set, yet
  \<open>main\<close> calls \<open>notify\<close> with the full report. It fails in the version with
  \<open>detectChanges\<close>: with the force-report flag set and a service that went down, the
  message sent is the change message, not the full report. And in \<open>monitor.mjs\<close>, with
  the flag set and a state file that holds the text \<open>null\<close>, \<open>main\<close> fails in the
  change detector and calls \<open>notify\<close> with no report at all.
\<close>

theorem notify_decision_counterexample:
  "loadPreviousState example_fs = JObj []
   \<and> detectChanges node_prototypes [example_up] (JObj []) = Inr []
   \<and> getChangedServices node_prototypes [example_up] (JObj []) = Inr []
   \<and> \<not> forceReport example_env
   \<and> notifications (main example_env example_platform_up example_fs)
       = [formatStatusMessage [example_up] (str ''12/31/2024, 21:00:00'') 3250]
   \<and> forceReport (example_env\<lparr>FORCE_STATUS_REPORT := Some (str ''true'')\<rparr>)
   \<and> notifications
        (main_detectChanges (example_env\<lparr>FORCE_STATUS_REPORT := Some (str ''true'')\<rparr>)
           example_platform
           (example_fs\<lparr>content := Some (stringify_state [(str ''https://a.example'', True)])\<rparr>))
       = [red_circle @ str '' **SERVICE WENT DOWN**'' @ [0x0A] @ fmt example_down]
   \<and> red_circle @ str '' **SERVICE WENT DOWN**'' @ [0x0A] @ fmt example_down
       \<noteq> status_report [example_down]
   \<and> notifications
        (main (example_env\<lparr>FORCE_STATUS_REPORT := Some (str ''true'')\<rparr>) example_platform
           (example_fs\<lparr>content := Some (str ''null'')\<rparr>))
       = []"
proof -
  have f: "forceReport (example_env\<lparr>FORCE_STATUS_REPORT := Some (str ''true'')\<rparr>)"
    by (simp add: forceReport_def)
  have z: "notifications
        (main (example_env\<lparr>FORCE_STATUS_REPORT := Some (str ''true'')\<rparr>) example_platform
           (example_fs\<lparr>content := Some (str ''null'')\<rparr>))
       = []"
  proof -
    have "prototypes example_platform = node_prototypes"
      by (simp add: example_platform_def)
    then show ?thesis
      by (simp add: main_def example_probe_force example_load_null example_hasChanges_null
               Let_def del: hasChanges.simps)
  qed
  have p: "prototypes example_platform = node_prototypes"
    by (simp add: example_platform_def)
  have c: "detectChanges (prototypes example_platform) [example_down]
             (loadPreviousState
                (example_fs\<lparr>content := Some (stringify_state [(str ''https://a.example'', True)])\<rparr>))
           = Inr [\<lparr>type = went_down, result = example_down\<rparr>]"
    unfolding p example_load_up
    by (simp add: detectChanges_def example_down_def)
  have n: "notifications
        (main_detectChanges (example_env\<lparr>FORCE_STATUS_REPORT := Some (str ''true'')\<rparr>)
           example_platform
           (example_fs\<lparr>content := Some (stringify_state [(str ''https://a.example'', True)])\<rparr>))
       = [red_circle @ str '' **SERVICE WENT DOWN**'' @ [0x0A] @ fmt example_down]"
    by (simp add: main_detectChanges_unfold[OF example_probe_force c] Let_def
        change_message_def)
  have d: "red_circle @ str '' **SERVICE WENT DOWN**'' @ [0x0A] @ fmt example_down
       \<noteq> status_report [example_down]"
    by (simp add: status_report_def red_circle_def bar_chart_def)
  have g: "get_prop node_prototypes (JObj []) (str ''https://a.example'') = Inr Undefined"
    using url_not_inherited by (simp add: proto_lookup_def)
  have a1: "detectChanges node_prototypes [example_up] (JObj []) = Inr []"
    by (simp add: detectChanges_def example_up_def g del: get_prop.simps)
  have a2: "getChangedServices node_prototypes [example_up] (JObj []) = Inr []"
    by (simp add: getChangedServices_def example_up_def g del: get_prop.simps)
  have a3: "\<not> forceReport example_env"
    by (simp add: forceReport_def example_env_def)
  have pu: "prototypes example_platform_up = node_prototypes"
    "localTime example_platform_up = str ''12/31/2024, 21:00:00''"
    "endTime example_platform_up - startTime example_platform_up = 3250"
    by (simp_all add: example_platform_up_def example_platform_def)
  have h: "hasChanges (prototypes example_platform_up) [example_up]
             (loadPreviousState example_fs) = Inr True"
    using hasChanges_empty_state[of "[example_up]" node_prototypes]
    by (simp add: pu example_load_empty del: hasChanges.simps)
  have a4: "notifications (main example_env example_platform_up example_fs)
       = [formatStatusMessage [example_up] (str ''12/31/2024, 21:00:00'') 3250]"
    by (simp add: main_unfold[OF example_probe_up h] Let_def pu)
  show ?thesis using f n d z a1 a2 a3 a4 example_load_empty by blast
qed

text \<open>
  Claim C10, as amended. For an object as previous state, \<open>hasChanges\<close> returns true
  if and only if the URL of some outcome is not an own key of it or is mapped to a
  value other than that outcome's \<open>up\<close>. In particular it returns true when the
  previous state is empty and there is at least one outcome, whether the outcomes are
  up or not; so a run with at least one target and an empty previous state calls
  \<open>notify\<close>.
\<close>

theorem hasChanges_first_sight:
  "hasChanges rt rs (JObj kvs) =
     Inr (\<exists>r\<in>set rs. map_of kvs (url r) = None
                    \<or> (\<exists>v. map_of kvs (url r) = Some v \<and> v \<noteq> JBool (up r)))
   \<and> (rs \<noteq> [] \<longrightarrow> hasChanges rt rs (JObj []) = Inr True)
   \<and> (TARGETS env \<noteq> [] \<and> loadPreviousState d = JObj [] \<longrightarrow>
        notifications (main env pf d) \<noteq> [])"
proof -
  have 1: "hasChanges rt rs (JObj kvs) =
     Inr (\<exists>r\<in>set rs. map_of kvs (url r) = None
                    \<or> (\<exists>v. map_of kvs (url r) = Some v \<and> v \<noteq> JBool (up r)))"
    by (rule hasChanges_obj)
  have 3: "TARGETS env \<noteq> [] \<and> loadPreviousState d = JObj [] \<longrightarrow>
        notifications (main env pf d) \<noteq> []"
  proof (intro impI, elim conjE)
    assume t: "TARGETS env \<noteq> []" and l: "loadPreviousState d = JObj []"
    obtain results where r: "those (probe_all pf (TARGETS env)) = Some results"
      "length results = length (TARGETS env)"
      using probe_all_defined by blast
    then have "results \<noteq> []" using t by auto
    then have h: "hasChanges (prototypes pf) results (loadPreviousState d) = Inr True"
      unfolding l by (rule hasChanges_empty_state)
    show "notifications (main env pf d) \<noteq> []"
      by (simp add: main_unfold[OF r(1) h] Let_def)
  qed
  show ?thesis using 1 3 hasChanges_empty_state by blast
qed

theorem hasChanges_first_sight_witness:
  "hasChanges node_prototypes [example_up] (JObj [(str ''https://a.example'', JBool False)])
     = Inr True
   \<and> hasChanges node_prototypes [example_up] (JObj [(str ''https://a.example'', JBool True)])
     = Inr False
   \<and> hasChanges node_prototypes [example_up] (JObj []) = Inr True
   \<and> TARGETS example_env \<noteq> [] \<and> loadPreviousState example_fs = JObj []
   \<and> notifications (main example_env example_platform example_fs) \<noteq> []"
proof -
  have t: "TARGETS example_env \<noteq> []" by code_simp
  have 1: "hasChanges node_prototypes [example_up] (JObj [(str ''https://a.example'', JBool False)])
     = Inr True"
    using hasChanges_first_sight[of node_prototypes "[example_up]"
        "[(str ''https://a.example'', JBool False)]"]
    by (simp add: example_up_def)
  have 2: "hasChanges node_prototypes [example_up] (JObj [(str ''https://a.example'', JBool True)])
     = Inr False"
    using hasChanges_first_sight[of node_prototypes "[example_up]"
        "[(str ''https://a.example'', JBool True)]"]
    by (simp add: example_up_def)
  have 3: "hasChanges node_prototypes [example_up] (JObj []) = Inr True"
    using hasChanges_first_sight[of node_prototypes "[example_up]"] by simp
  have 4: "notifications (main example_env example_platform example_fs) \<noteq> []"
    using hasChanges_first_sight[of _ _ _ example_env example_fs example_platform]
      t example_load_empty by blast
  show ?thesis using 1 2 3 4 t example_load_empty by blast
qed

text \<open>
  The claim as it was stated fails on a run without targets (no URL is configured):
  every outcome is up, since there is none, the previous state is empty, and
  \<open>hasChanges\<close> returns false; \<open>notify\<close> is not called.
\<close>

theorem hasChanges_first_sight_counterexample:
  "hasChanges node_prototypes [] (JObj []) = Inr False
   \<and> those (probe_all example_platform (TARGETS (example_env\<lparr>PROD_MONITOR_URL := None\<rparr>)))
       = Some []
   \<and> loadPreviousState example_fs = JObj []
   \<and> notifications (main (example_env\<lparr>PROD_MONITOR_URL := None\<rparr>) example_platform example_fs)
       = []"
proof -
  have h: "hasChanges (prototypes example_platform) [] (loadPreviousState example_fs)
             = Inr False"
    by simp
  have f: "\<not> forceReport (example_env\<lparr>PROD_MONITOR_URL := None\<rparr>)"
    by (simp add: forceReport_def example_env_def)
  have n: "notifications
             (main (example_env\<lparr>PROD_MONITOR_URL := None\<rparr>) example_platform example_fs) = []"
    using f by (simp add: main_unfold[OF example_no_targets h] Let_def)
  show ?thesis using n example_no_targets example_load_empty by simp
qed

end
